theory Spec2Isabelle
  imports Main "HOL-Library.Sublist"
begin

section \<open>Outcomes, faults and cancellation scopes\<close>

text \<open>
  A Go panic carries an arbitrary value (\<^verbatim>\<open>interface{}\<close>); the type variable \<open>'v\<close>
  stands for the values a worker body may raise. The runtime raises faults of its own
  (a negative \<^verbatim>\<open>sync.WaitGroup\<close> counter, an index out of range); they carry the
  runtime's message.
\<close>

datatype 'v panic = Value 'v | RuntimeError string

text \<open>
  Modelled from the spec: the \<^verbatim>\<open>error\<close> values that occur in a run; the error types of
  the package are declared in a file that is not part of the sources. A nil error is
  \<open>None\<close> of \<open>'v error option\<close>. \<open>Failure\<close> is an ordinary failure with its description,
  \<open>Canceled\<close> is \<^verbatim>\<open>context.Canceled\<close>, \<open>PanicError\<close> (named in \<^verbatim>\<open>work_test.go\<close>) is
  the FaultOutcome, a recovered fault kept with its original value, and \<open>RepanicError\<close> is
  the same outcome marked with the re-raise capability (the method \<^verbatim>\<open>Panic()\<close> that
  \<^verbatim>\<open>Work\<close> probes for).
\<close>

datatype 'v error =
    Failure string
  | Canceled
  | PanicError "'v panic"
  | RepanicError "'v panic"

text \<open>The textual form of a fault value; \<open>tx\<close> renders the values of type \<open>'v\<close>.\<close>

fun textual :: "('v \<Rightarrow> string) \<Rightarrow> 'v panic \<Rightarrow> string" where
  "textual tx (Value v) = tx v"
| "textual tx (RuntimeError msg) = msg"

text \<open>
  Modelled from the spec: the description \<^verbatim>\<open>Error()\<close> of an error value; a
  FaultOutcome reads \<^verbatim>\<open>"panic: " + textual(value)\<close>.
\<close>

fun Error :: "('v \<Rightarrow> string) \<Rightarrow> 'v error \<Rightarrow> string" where
  "Error tx (Failure msg) = msg"
| "Error tx Canceled = ''context canceled''"
| "Error tx (PanicError f) = ''panic: '' @ textual tx f"
| "Error tx (RepanicError f) = ''panic: '' @ textual tx f"

text \<open>
  Modelled from the spec: the probe \<^verbatim>\<open>m.Result().(interface{ Panic() })\<close> followed
  by \<^verbatim>\<open>r.Panic()\<close>. \<open>Some f\<close>: the result has the capability and invoking it raises
  the original value \<open>f\<close> without returning; \<open>None\<close>: the type assertion fails.
\<close>

fun Panic :: "'v error option \<Rightarrow> 'v panic option" where
  "Panic (Some (RepanicError f)) = Some f"
| "Panic _ = None"

text \<open>
  \<^verbatim>\<open>type Ctx = context.Context\<close>. A worker can ask a context whether it is done;
  \<open>Ctx d\<close> is a context whose done signal reads \<open>d\<close>. \<^verbatim>\<open>context.TODO()\<close> is never
  done.
\<close>

datatype Ctx = Ctx (Done: bool)

definition TODO :: Ctx where
  "TODO = Ctx False"

text \<open>
  \<^verbatim>\<open>type Worker func(Ctx) error\<close> and \<^verbatim>\<open>type WorkerIdx func(Ctx, int) error\<close>.
  A call either returns an error (nil or not) or raises a fault. The context handed to the
  body is the state of the done signal when the body consults it.
\<close>

datatype 'v exit = Returns "'v error option" | Panics "'v panic"

type_synonym 'v Worker = "Ctx \<Rightarrow> 'v exit"

type_synonym 'v WorkerIdx = "Ctx \<Rightarrow> int \<Rightarrow> 'v exit"

section \<open>The Manager interface\<close>

text \<open>
  Modelled from the spec: what one call \<^verbatim>\<open>m.Manage(ctx, CancellerFunc(cancel), err)\<close>
  does, as seen by the closure that calls it: the manager afterwards, whether the canceller
  was invoked, the fault that the call leaves in flight as far as the call itself is
  concerned (\<open>None\<close> when \<^verbatim>\<open>recover()\<close> gave it none or it recovered the one it was
  given; \<open>Some f\<close> when it left that one alone or raised \<open>f\<close> itself), and the sequence
  number returned.
\<close>

datatype ('m, dead 'v) managed =
  Managed (next_manager: 'm) (cancel_called: bool) (inflight: "'v panic option") (seqno: int)

text \<open>
  Modelled from the spec: the interface \<^verbatim>\<open>Manager\<close>, whose declaration is not part of
  the sources; \<^verbatim>\<open>work.go\<close> calls \<^verbatim>\<open>Manage(ctx, canceller, err)\<close> and \<^verbatim>\<open>Result()\<close> on
  it. A manager is an object with hidden state: each method answers and yields the object
  as it is after the call. The canceller is a capability and not data: what a call does
  with it is the flag \<open>cancel_called\<close> of its answer. \<open>Manage\<close> receives, besides the
  arguments of the call, what \<^verbatim>\<open>recover()\<close> yields inside the call: the spec lets a
  decorator intercept a fault that way. Whether the fault in flight is what
  \<^verbatim>\<open>recover()\<close> yields is decided by the caller, see \<open>task_step\<close>.
\<close>

codatatype 'v Manager = Manager
  (Manage: "Ctx \<Rightarrow> 'v error option \<Rightarrow> 'v panic option \<Rightarrow> ('v Manager, 'v) managed")
  (Result: "'v error option \<times> 'v Manager")

subsection \<open>The built-in policies\<close>

text \<open>
  Modelled from the spec: the names of the four policies (section 4.2; the constructors
  \<^verbatim>\<open>CancelNeverFirstError()\<close>, ... are called in \<^verbatim>\<open>work_test.go\<close>, their source file is
  not part of the sources).
\<close>

datatype policy =
    CancelNeverFirstError
  | CancelOnFirstError
  | CancelOnFirstSuccess
  | CancelOnFirstComplete

text \<open>
  Modelled from the spec: the state of a policy within one run: the completion-sequence
  counter, the flag "have we decided yet", and the aggregate result.
\<close>

record 'v pstate =
  count :: int
  decided :: bool
  chosen :: "'v error option"

text \<open>Modelled from the spec: the state of a policy that has seen no outcome.\<close>

definition pstate0 :: "'v pstate" where
  "pstate0 = \<lparr>count = 0, decided = False, chosen = None\<rparr>"

text \<open>
  Modelled from the spec: the four policies of the table in section 4.2, whose source file
  is not part of the sources. \<open>decide p err s\<close> is the aggregate state after the outcome
  \<open>err\<close>, and whether the policy invokes the canceller. The flag \<open>decided\<close> is the
  compare-and-set flag of the spec: for the first three policies it is set by the first
  outcome that triggers the policy, for \<open>CancelOnFirstComplete\<close> by the first call.
\<close>

fun decide :: "policy \<Rightarrow> 'v error option \<Rightarrow> 'v pstate \<Rightarrow> 'v pstate \<times> bool" where
  "decide CancelNeverFirstError err s =
     (if err \<noteq> None \<and> \<not> decided s then (s\<lparr>decided := True, chosen := err\<rparr>, False)
      else (s, False))"
| "decide CancelOnFirstError err s =
     (if err \<noteq> None \<and> \<not> decided s then (s\<lparr>decided := True, chosen := err\<rparr>, True)
      else (s, False))"
| "decide CancelOnFirstSuccess err s =
     (if err = None then
        (if \<not> decided s then (s\<lparr>decided := True, chosen := None\<rparr>, True) else (s, False))
      else
        (if \<not> decided s \<and> chosen s = None then (s\<lparr>chosen := err\<rparr>, False) else (s, False)))"
| "decide CancelOnFirstComplete err s =
     (if \<not> decided s then (s\<lparr>decided := True, chosen := err\<rparr>, True) else (s, False))"

text \<open>
  Modelled from the spec: a policy as a Manager. \<open>Manage\<close> takes its decision and returns
  the next completion sequence number (one atomic increment per call); it leaves a fault
  in flight alone. \<open>Result\<close> reads the aggregate.
\<close>

primcorec policy_manager :: "policy \<Rightarrow> 'v pstate \<Rightarrow> 'v Manager" where
  "Manage (policy_manager p s) = (\<lambda>ctx err flt.
     Managed (policy_manager p ((fst (decide p err s))\<lparr>count := count s + 1\<rparr>))
       (snd (decide p err s)) flt (count s + 1))"
| "Result (policy_manager p s) = (chosen s, policy_manager p s)"

text \<open>Modelled from the spec: \<^verbatim>\<open>DefaultManager()\<close> is \<^verbatim>\<open>CancelNeverFirstError()\<close>.\<close>

definition DefaultManager :: "'v Manager" where
  "DefaultManager = policy_manager CancelNeverFirstError pstate0"

subsection \<open>The decorators\<close>

text \<open>
  Modelled from the spec: the outcome that a recovering decorator forwards. A fault in
  flight is converted into a FaultOutcome; without a fault the outcome is forwarded as it
  is.
\<close>

definition recovered :: "'v error option \<Rightarrow> 'v panic option \<Rightarrow> 'v error option" where
  "recovered err flt = (case flt of None \<Rightarrow> err | Some f \<Rightarrow> Some (PanicError f))"

text \<open>
  Modelled from the spec: \<^verbatim>\<open>Recover(m)\<close>, whose source file is not part of the
  sources. A fault in flight is intercepted, so that none is in flight for the inner
  manager, and forwarded to the inner manager as a failure outcome. The result is that of
  the inner manager.
\<close>

primcorec Recover :: "'v Manager \<Rightarrow> 'v Manager" where
  "Manage (Recover m) = (\<lambda>ctx err flt.
     (let r = Manage m ctx (recovered err flt) None
      in Managed (Recover (next_manager r)) (cancel_called r) (inflight r) (seqno r)))"
| "Result (Recover m) = (fst (Result m), Recover (snd (Result m)))"

text \<open>
  Modelled from the spec: marking an aggregate result that is a FaultOutcome with the
  re-raise capability.
\<close>

fun mark :: "'v error option \<Rightarrow> 'v error option" where
  "mark (Some (PanicError f)) = Some (RepanicError f)"
| "mark r = r"

text \<open>
  Modelled from the spec: \<^verbatim>\<open>Repanic(m)\<close>, whose source file is not part of the
  sources. It behaves like \<^verbatim>\<open>Recover(m)\<close> and marks the aggregate result with the
  re-raise capability.
\<close>

primcorec Repanic :: "'v Manager \<Rightarrow> 'v Manager" where
  "Manage (Repanic m) = (\<lambda>ctx err flt.
     (let r = Manage m ctx (recovered err flt) None
      in Managed (Repanic (next_manager r)) (cancel_called r) (inflight r) (seqno r)))"
| "Result (Repanic m) = (mark (fst (Result m)), Repanic (snd (Result m)))"

section \<open>Executers\<close>

text \<open>
  Modelled from the spec: the three scheduling strategies of section 4.1, whose source
  file is not part of the sources. \<open>Pool c k\<close> is bound to the scope \<open>c\<close>.
\<close>

datatype Executer = Unbounded | Bounded nat | Pool Ctx nat

text \<open>Modelled from the spec: \<^verbatim>\<open>DefaultExecuter()\<close> is the unbounded executer.\<close>

definition DefaultExecuter :: Executer where
  "DefaultExecuter = Unbounded"

section \<open>The closure submitted for each worker\<close>

text \<open>
  \<^verbatim>\<open>
  e.Execute(func() {
      defer wg.Done()
      var err error
      defer func() { m.Manage(ctx, CancellerFunc(cancel), err) }()
      err = worker(ctx)
  })
  \<close>
  The closure of worker number \<open>i\<close> is a goroutine with a program counter:
  \<^item> \<open>Queued\<close>: handed to \<^verbatim>\<open>e.Execute\<close>, not started;
  \<^item> \<open>Running\<close>: inside \<^verbatim>\<open>worker(ctx)\<close>;
  \<^item> \<open>Managing err flt\<close>: the body is left, the deferred call of \<^verbatim>\<open>Manage\<close> is next;
    \<open>err\<close> is the variable \<^verbatim>\<open>err\<close> and \<open>flt\<close> the fault in flight;
  \<^item> \<open>Leaving flt\<close>: \<^verbatim>\<open>Manage\<close> is over, the deferred \<^verbatim>\<open>wg.Done()\<close> is next;
  \<^item> \<open>Exited\<close>: the closure is over.
\<close>

datatype 'v task =
    Queued
  | Running
  | Managing "'v error option" "'v panic option"
  | Leaving "'v panic option"
  | Exited

text \<open>
  Where the body leaves the closure: a return assigns \<^verbatim>\<open>err\<close>; a fault skips the
  assignment, so \<^verbatim>\<open>err\<close> keeps its zero value nil, and starts unwinding.
\<close>

fun unwind :: "'v exit \<Rightarrow> 'v task" where
  "unwind (Returns err) = Managing err None"
| "unwind (Panics f) = Managing None (Some f)"

text \<open>What an observer of a run can record, in the order in which it happens.\<close>

datatype 'v event =
    BodyE nat "'v exit"
  | ManageE nat "'v error option" "'v panic option" int
  | DoneE nat
  | CancelE "nat option"
  | ResultE "'v error option"

text \<open>
  \<open>BodyE i out\<close>: the body of worker \<open>i\<close> ran and left with \<open>out\<close>.
  \<open>ManageE i err flt n\<close>: the closure of worker \<open>i\<close> called \<^verbatim>\<open>Manage\<close> with outcome
  \<open>err\<close> while \<open>flt\<close> was in flight in its goroutine, and the call returned \<open>n\<close>.
  \<open>DoneE i\<close>: the closure of worker \<open>i\<close> decremented the completion counter.
  \<open>CancelE (Some i)\<close>: the canceller was invoked in the \<^verbatim>\<open>Manage\<close> call of worker \<open>i\<close>;
  \<open>CancelE None\<close>: the deferred \<^verbatim>\<open>cancel()\<close> of the entry point ran.
  \<open>ResultE r\<close>: the entry point called \<^verbatim>\<open>m.Result()\<close> and got \<open>r\<close>.
\<close>

section \<open>A run\<close>

datatype 'v status =
    Submitting
  | Waiting
  | Returned "'v error option"
  | Raised "'v panic"
  | Crashed "'v panic"

text \<open>
  \<open>Submitting\<close>: the entry point is in its submission loop; \<open>Waiting\<close>: it is in
  \<^verbatim>\<open>wg.Wait()\<close>; \<open>Returned r\<close>: it returned \<open>r\<close> to its caller; \<open>Raised f\<close>: it left
  by raising \<open>f\<close> in the calling goroutine; \<open>Crashed f\<close>: the fault \<open>f\<close> left the
  goroutine of a worker, which ends the process.
\<close>

record 'v run =
  parent :: Ctx
  cancelled :: bool
  queue :: "'v Worker list"
  closed :: bool
  lazy :: bool
  workers :: "'v Worker list"
  tasks :: "'v task list"
  wg :: int
  mgr :: "'v Manager"
  status :: "'v status"
  trace :: "'v event list"

text \<open>
  \<open>parent\<close>: the scope the run derives its own from; \<open>cancelled\<close>: \<^verbatim>\<open>cancel\<close> of the
  derived scope was called; \<open>queue\<close>: the workers not yet submitted (the rest of the
  slice, of the index range, or of what the channel delivers); \<open>closed\<close>: the channel is
  closed once it is drained (always so for a slice or a range); \<open>lazy\<close>: the counter is
  incremented per submission (\<^verbatim>\<open>WorkChan\<close>) instead of once before the loop;
  \<open>workers\<close>, \<open>tasks\<close>: the submitted workers and the state of their closures, by worker
  number; \<open>wg\<close>: the counter of the \<^verbatim>\<open>sync.WaitGroup\<close>; \<open>mgr\<close>: the manager.
\<close>

text \<open>The derived scope is done when its parent is, or when it was cancelled.\<close>

definition child :: "'v run \<Rightarrow> Ctx" where
  "child s = Ctx (Done (parent s) \<or> cancelled s)"

text \<open>A closure that was started and is not over occupies the executer.\<close>

fun active :: "'v task \<Rightarrow> bool" where
  "active Queued = False"
| "active Exited = False"
| "active _ = True"

text \<open>
  Modelled from the spec: when an executer lets the closure of worker \<open>i\<close> start.
  \<open>Unbounded\<close> starts it at once. \<open>Bounded k\<close> starts it when one of its \<open>k\<close> slots is
  free; the slot is held until the closure is over. \<open>Pool c k\<close> has \<open>k\<close> tasks that take
  closures from a queue, in the order of submission, as long as the scope \<open>c\<close> is not
  done.
\<close>

fun admits :: "Executer \<Rightarrow> 'v task list \<Rightarrow> nat \<Rightarrow> bool" where
  "admits Unbounded ts i = True"
| "admits (Bounded k) ts i = (length (filter active ts) < k)"
| "admits (Pool c k) ts i =
     (\<not> Done c \<and> length (filter active ts) < k \<and> Queued \<notin> set (take i ts))"

text \<open>
  The fault in flight after the deferred closure has called \<^verbatim>\<open>Manage\<close>: the one that was
  in flight before, \<open>flt\<close>, unless the call raised one of its own, which then prevails.
\<close>

fun prevailing :: "'v panic option \<Rightarrow> 'v panic option \<Rightarrow> 'v panic option" where
  "prevailing flt None = flt"
| "prevailing flt (Some f) = Some f"

text \<open>
  One step of the closure of worker \<open>i\<close>; \<open>adm\<close> is the admission rule of the executer.
  \<^verbatim>\<open>
  defer func() {
      m.Manage(ctx, CancellerFunc(cancel), err)
  }()
  \<close>
  The deferred function is the closure, and \<^verbatim>\<open>Manage\<close> is called by it: a
  \<^verbatim>\<open>recover()\<close> inside \<^verbatim>\<open>Manage\<close> is not called directly by a deferred function and
  yields nil. So \<^verbatim>\<open>Manage\<close> is given no fault, whatever is in flight, and the fault of
  the body stays in flight. A fault still in flight when the closure is over leaves the
  goroutine, which ends the process.
\<close>

definition task_step :: "('v task list \<Rightarrow> nat \<Rightarrow> bool) \<Rightarrow> nat \<Rightarrow> 'v run \<Rightarrow> 'v run" where
  "task_step adm i s =
     (if length (tasks s) \<le> i then s
      else case tasks s ! i of
        Queued \<Rightarrow>
          if adm (tasks s) i then s\<lparr>tasks := (tasks s)[i := Running]\<rparr> else s
      | Running \<Rightarrow>
          (let out = (workers s ! i) (child s)
           in s\<lparr>tasks := (tasks s)[i := unwind out], trace := trace s @ [BodyE i out]\<rparr>)
      | Managing err flt \<Rightarrow>
          (let r = Manage (mgr s) (child s) err None
           in s\<lparr>mgr := next_manager r,
                cancelled := (cancelled s \<or> cancel_called r),
                tasks := (tasks s)[i := Leaving (prevailing flt (inflight r))],
                trace := trace s @ ManageE i err flt (seqno r)
                           # (if cancel_called r then [CancelE (Some i)] else [])\<rparr>)
      | Leaving flt \<Rightarrow>
          s\<lparr>wg := wg s - 1,
            tasks := (tasks s)[i := Exited],
            status := (case flt of None \<Rightarrow> status s | Some f \<Rightarrow> Crashed f),
            trace := trace s @ [DoneE i]\<rparr>
      | Exited \<Rightarrow> s)"

text \<open>
  \<^verbatim>\<open>
  if r, ok := m.Result().(interface{ Panic() }); ok {
      r.Panic()
  }
  return m.Result()
  \<close>
  with the deferred \<^verbatim>\<open>cancel()\<close>, which runs on the way out in both cases.
\<close>

definition finish :: "'v run \<Rightarrow> 'v run" where
  "finish s =
     (let (r, m1) = Result (mgr s)
      in case Panic r of
           Some f \<Rightarrow>
             s\<lparr>mgr := m1, cancelled := True, status := Raised f,
               trace := trace s @ [ResultE r, CancelE None]\<rparr>
         | None \<Rightarrow>
             (let (r', m2) = Result m1
              in s\<lparr>mgr := m2, cancelled := True, status := Returned r',
                   trace := trace s @ [ResultE r, ResultE r', CancelE None]\<rparr>))"

text \<open>
  One step of the entry point: submit the next worker (\<^verbatim>\<open>e.Execute\<close> returns at
  once), go on to \<^verbatim>\<open>wg.Wait()\<close> when there is none left, and leave it when the counter
  is zero.
\<close>

definition main_step :: "'v run \<Rightarrow> 'v run" where
  "main_step s =
     (case status s of
        Submitting \<Rightarrow>
          (case queue s of
             [] \<Rightarrow> if closed s then s\<lparr>status := Waiting\<rparr> else s
           | w # ws \<Rightarrow>
               s\<lparr>queue := ws,
                 workers := workers s @ [w],
                 tasks := tasks s @ [Queued],
                 wg := (if lazy s then wg s + 1 else wg s)\<rparr>)
      | Waiting \<Rightarrow> if wg s = 0 then finish s else s
      | _ \<Rightarrow> s)"

text \<open>
  The scheduler picks the goroutine that moves next. Nothing moves after a crash.
\<close>

datatype choice = Main | Task nat

definition step :: "('v task list \<Rightarrow> nat \<Rightarrow> bool) \<Rightarrow> choice \<Rightarrow> 'v run \<Rightarrow> 'v run" where
  "step adm c s =
     (case status s of
        Crashed f \<Rightarrow> s
      | _ \<Rightarrow> (case c of Main \<Rightarrow> main_step s | Task i \<Rightarrow> task_step adm i s))"

definition exec :: "('v task list \<Rightarrow> nat \<Rightarrow> bool) \<Rightarrow> choice list \<Rightarrow> 'v run \<Rightarrow> 'v run" where
  "exec adm sched s = fold (step adm) sched s"

section \<open>The entry points\<close>

definition start :: "Ctx \<Rightarrow> 'v Manager \<Rightarrow> 'v Worker list \<Rightarrow> bool \<Rightarrow> bool \<Rightarrow> 'v run" where
  "start ctx m g lz cl =
     \<lparr>parent = ctx, cancelled = False, queue = g, closed = cl, lazy = lz,
      workers = [], tasks = [], wg = (if lz then 0 else int (length g)),
      mgr = m, status = Submitting, trace = []\<rparr>"

definition ctx_or_TODO :: "Ctx option \<Rightarrow> Ctx" where
  "ctx_or_TODO ctx = (case ctx of None \<Rightarrow> TODO | Some c \<Rightarrow> c)"

definition executer_or_default :: "Executer option \<Rightarrow> Executer" where
  "executer_or_default e = (case e of None \<Rightarrow> DefaultExecuter | Some x \<Rightarrow> x)"

definition manager_or_default :: "'v Manager option \<Rightarrow> 'v Manager" where
  "manager_or_default m = (case m of None \<Rightarrow> DefaultManager | Some x \<Rightarrow> x)"

text \<open>
  \<^verbatim>\<open>func Work(ctx Ctx, e Executer, m Manager, g ...Worker) error\<close>, under the schedule
  \<open>sched\<close>. A nil argument is \<open>None\<close>.
\<close>

definition Work ::
  "Ctx option \<Rightarrow> Executer option \<Rightarrow> 'v Manager option \<Rightarrow> 'v Worker list \<Rightarrow> choice list \<Rightarrow> 'v run"
where
  "Work ctx e m g sched =
     exec (admits (executer_or_default e)) sched
       (start (ctx_or_TODO ctx) (manager_or_default m) g False True)"

text \<open>
  \<^verbatim>\<open>func WorkFor(ctx Ctx, n int, e Executer, m Manager, w WorkerIdx) error\<close>.
  \<^verbatim>\<open>wg.Add(n)\<close> with a negative \<open>n\<close> raises in the calling goroutine, after
  \<^verbatim>\<open>cancel\<close> was deferred.
\<close>

definition WorkFor ::
  "Ctx option \<Rightarrow> int \<Rightarrow> Executer option \<Rightarrow> 'v Manager option \<Rightarrow> 'v WorkerIdx \<Rightarrow> choice list \<Rightarrow> 'v run"
where
  "WorkFor ctx n e m w sched =
     (if n < 0 then
        (start (ctx_or_TODO ctx) (manager_or_default m) [] False True)
          \<lparr>cancelled := True,
           status := Raised (RuntimeError ''sync: negative WaitGroup counter''),
           trace := [CancelE None]\<rparr>
      else
        exec (admits (executer_or_default e)) sched
          (start (ctx_or_TODO ctx) (manager_or_default m)
             (map (\<lambda>i c. w c (int i)) [0..<nat n]) False True))"

text \<open>
  \<^verbatim>\<open>func WorkChan(ctx Ctx, e Executer, m Manager, g <-chan Worker) error\<close>. The channel
  is what it delivers, \<open>items\<close>, and whether it is closed after that, \<open>closes\<close>.
\<close>

datatype 'v chan = Chan (items: "'v Worker list") (closes: bool)

definition WorkChan ::
  "Ctx option \<Rightarrow> Executer option \<Rightarrow> 'v Manager option \<Rightarrow> 'v chan \<Rightarrow> choice list \<Rightarrow> 'v run"
where
  "WorkChan ctx e m g sched =
     exec (admits (executer_or_default e)) sched
       (start (ctx_or_TODO ctx) (manager_or_default m) (items g) True (closes g))"

section \<open>Reading a trace\<close>

text \<open>The worker whose closure an event belongs to.\<close>

fun worker_of :: "'v event \<Rightarrow> nat option" where
  "worker_of (BodyE i out) = Some i"
| "worker_of (ManageE i err flt n) = Some i"
| "worker_of (DoneE i) = Some i"
| "worker_of (CancelE c) = None"
| "worker_of (ResultE r) = None"

text \<open>What the closure of worker \<open>i\<close> did, in order.\<close>

definition calls :: "nat \<Rightarrow> 'v event list \<Rightarrow> 'v event list" where
  "calls i evs = filter (\<lambda>e. worker_of e = Some i) evs"

text \<open>The workers of a run: those submitted and those still to be submitted.\<close>

definition workload :: "'v run \<Rightarrow> 'v Worker list" where
  "workload s = workers s @ queue s"

text \<open>The entry point gave control back to its caller, by a return or by a fault.\<close>

fun exited :: "'v status \<Rightarrow> bool" where
  "exited (Returned r) = True"
| "exited (Raised f) = True"
| "exited _ = False"

text \<open>The states that a call of one of the three entry points reaches.\<close>

inductive is_run :: "'v run \<Rightarrow> bool" where
  Work: "is_run (Work ctx e m g sched)"
| WorkFor: "is_run (WorkFor ctx n e m w sched)"
| WorkChan: "is_run (WorkChan ctx e m ch sched)"

text \<open>
  The program counter of the closure of worker \<open>i\<close>, running the body \<open>w\<close>, against
  what the trace says the closure did.
\<close>

fun agrees :: "'v Worker \<Rightarrow> nat \<Rightarrow> 'v task \<Rightarrow> 'v event list \<Rightarrow> bool" where
  "agrees w i Queued evs \<longleftrightarrow> evs = []"
| "agrees w i Running evs \<longleftrightarrow> evs = []"
| "agrees w i (Managing err flt) evs \<longleftrightarrow>
     (\<exists>c. unwind (w c) = Managing err flt \<and> evs = [BodyE i (w c)])"
| "agrees w i (Leaving f) evs \<longleftrightarrow>
     (\<exists>c err flt n. unwind (w c) = Managing err flt \<and>
        evs = [BodyE i (w c), ManageE i err flt n])"
| "agrees w i Exited evs \<longleftrightarrow>
     (\<exists>c err flt n. unwind (w c) = Managing err flt \<and>
        evs = [BodyE i (w c), ManageE i err flt n, DoneE i])"

text \<open>A closure that has not yet decremented the counter.\<close>

fun pending :: "'v task \<Rightarrow> bool" where
  "pending Exited = False"
| "pending _ = True"

text \<open>
  The invariant of a run over the workers \<open>g\<close>: the counter of the wait group is the
  number of closures that are not over, plus the workers still to be submitted when the
  counter was set before the loop.
\<close>

definition consistent :: "'v Worker list \<Rightarrow> 'v run \<Rightarrow> bool" where
  "consistent g s \<longleftrightarrow>
     workers s @ queue s = g \<and>
     length (workers s) = length (tasks s) \<and>
     wg s = int (length (filter pending (tasks s)))
              + (if lazy s then 0 else int (length (queue s))) \<and>
     (\<forall>i. if i < length (tasks s)
          then agrees (workers s ! i) i (tasks s ! i) (calls i (trace s))
          else calls i (trace s) = []) \<and>
     (status s \<noteq> Submitting \<and> (\<forall>f. status s \<noteq> Crashed f) \<longrightarrow> queue s = []) \<and>
     (exited (status s) \<longrightarrow> (\<forall>t \<in> set (tasks s). t = Exited))"

section \<open>Sample workers and schedules\<close>

text \<open>
  Three workers that ignore the scope: one succeeds, one fails in the ordinary way, one
  raises the value \<^verbatim>\<open>"boom"\<close>. And the schedule that lets two workers run one after the
  other.
\<close>

definition succeeds :: "string Worker" where
  "succeeds c = Returns None"

definition fails :: "string Worker" where
  "fails c = Returns (Some (Failure ''x''))"

definition booms :: "string Worker" where
  "booms c = Panics (Value ''boom'')"

definition in_turn2 :: "choice list" where
  "in_turn2 = [Main, Main, Main, Task 0, Task 0, Task 0, Task 0,
               Task 1, Task 1, Task 1, Task 1, Main]"

section \<open>The way out of an entry point\<close>

text \<open>The events of the entry point itself, after \<^verbatim>\<open>wg.Wait()\<close>.\<close>

fun entry_event :: "'v event \<Rightarrow> bool" where
  "entry_event (ResultE r) = True"
| "entry_event (CancelE None) = True"
| "entry_event _ = False"

text \<open>
  The invariant of the way out. Before the entry point has left \<^verbatim>\<open>wg.Wait()\<close> it
  has neither asked for the result nor run the deferred \<^verbatim>\<open>cancel()\<close>. After a return
  the trace ends with the two calls of \<^verbatim>\<open>Result\<close> and the cancellation; after a
  re-raised fault with the one probing call and the cancellation.
\<close>

definition closing :: "'v run \<Rightarrow> bool" where
  "closing s \<longleftrightarrow>
     (case status s of
        Returned r \<Rightarrow>
          cancelled s \<and>
          (\<exists>pre M. trace s = pre @ [ResultE (fst (Result M)), ResultE r, CancelE None] \<and>
             \<not> list_ex entry_event pre \<and> Panic (fst (Result M)) = None \<and>
             r = fst (Result (snd (Result M))) \<and> mgr s = snd (Result (snd (Result M))))
      | Raised f \<Rightarrow>
          cancelled s \<and>
          ((\<exists>pre M. trace s = pre @ [ResultE (fst (Result M)), CancelE None] \<and>
              \<not> list_ex entry_event pre \<and> Panic (fst (Result M)) = Some f \<and>
              mgr s = snd (Result M)) \<or>
           (trace s = [CancelE None] \<and> tasks s = [] \<and>
              f = RuntimeError ''sync: negative WaitGroup counter''))
      | _ \<Rightarrow> \<not> list_ex entry_event (trace s))"

text \<open>Two calls of \<^verbatim>\<open>Result\<close> in a row give the same outcome.\<close>

definition idempotent :: "'v Manager \<Rightarrow> bool" where
  "idempotent M \<longleftrightarrow> fst (Result (snd (Result M))) = fst (Result M)"

text \<open>
  A manager whose \<^verbatim>\<open>Result\<close> is not idempotent: its answers alternate between nil and
  an outcome with the re-raise capability.
\<close>

primcorec moody :: "bool \<Rightarrow> string Manager" where
  "Manage (moody b) = (\<lambda>ctx err flt. Managed (moody b) False flt 1)"
| "Result (moody b) = ((if b then Some (RepanicError (Value ''late'')) else None), moody (\<not> b))"

section \<open>Runs under the built-in managers\<close>

text \<open>
  What the workers reported, in the order of the calls of \<^verbatim>\<open>Manage\<close>: the outcome passed
  and the fault in flight.
\<close>

fun outcomes :: "'v event list \<Rightarrow> ('v error option \<times> 'v panic option) list" where
  "outcomes [] = []"
| "outcomes (ManageE i err flt n # evs) = (err, flt) # outcomes evs"
| "outcomes (e # evs) = outcomes evs"

text \<open>The sequence numbers that the calls of \<^verbatim>\<open>Manage\<close> returned, in the order of the calls.\<close>

fun seqnos :: "'v event list \<Rightarrow> int list" where
  "seqnos [] = []"
| "seqnos (ManageE i err flt n # evs) = n # seqnos evs"
| "seqnos (e # evs) = seqnos evs"

text \<open>The exits of the body of worker \<open>i\<close>, one for each time it ran.\<close>

fun bodies :: "nat \<Rightarrow> 'v event list \<Rightarrow> 'v exit list" where
  "bodies i [] = []"
| "bodies i (BodyE j out # evs) = (if j = i then out # bodies i evs else bodies i evs)"
| "bodies i (e # evs) = bodies i evs"

text \<open>The workers in whose call of \<^verbatim>\<open>Manage\<close> the canceller was invoked.\<close>

fun cancellers :: "'v event list \<Rightarrow> nat list" where
  "cancellers [] = []"
| "cancellers (CancelE (Some i) # evs) = i # cancellers evs"
| "cancellers (e # evs) = cancellers evs"

text \<open>A built-in manager is a policy, plain or under one of the two decorators.\<close>

datatype decorator = Plain | Recovering | Repanicking

fun decorate :: "decorator \<Rightarrow> 'v Manager \<Rightarrow> 'v Manager" where
  "decorate Plain m = m"
| "decorate Recovering m = Recover m"
| "decorate Repanicking m = Repanic m"

text \<open>The result that leaves the decorator.\<close>

fun delivered :: "decorator \<Rightarrow> 'v error option \<Rightarrow> 'v error option" where
  "delivered Repanicking r = mark r"
| "delivered d r = r"

text \<open>The state of a policy after one more outcome, and after a list of outcomes.\<close>

definition after :: "policy \<Rightarrow> 'v pstate \<Rightarrow> 'v error option \<Rightarrow> 'v pstate" where
  "after p s err = (fst (decide p err s))\<lparr>count := count s + 1\<rparr>"

definition tally :: "policy \<Rightarrow> 'v error option list \<Rightarrow> 'v pstate" where
  "tally p outs = foldl (after p) pstate0 outs"

text \<open>
  The column \<^verbatim>\<open>Result()\<close> of the table of policies, as a function of the outcomes in
  completion order.
\<close>

fun first_failure :: "'v error option list \<Rightarrow> 'v error option" where
  "first_failure [] = None"
| "first_failure (None # outs) = first_failure outs"
| "first_failure (Some e # outs) = Some e"

fun aggregate :: "policy \<Rightarrow> 'v error option list \<Rightarrow> 'v error option" where
  "aggregate CancelNeverFirstError outs = first_failure outs"
| "aggregate CancelOnFirstError outs = first_failure outs"
| "aggregate CancelOnFirstSuccess outs = (if None \<in> set outs then None else first_failure outs)"
| "aggregate CancelOnFirstComplete outs = (case outs of [] \<Rightarrow> None | out # _ \<Rightarrow> out)"

text \<open>The states of a run of one of the entry points with the manager \<open>m\<close>.\<close>

inductive run_with :: "'v Manager \<Rightarrow> 'v run \<Rightarrow> bool" where
  Work: "run_with (manager_or_default m) (Work ctx e m g sched)"
| WorkFor: "run_with (manager_or_default m) (WorkFor ctx n e m w sched)"
| WorkChan: "run_with (manager_or_default m) (WorkChan ctx e m ch sched)"

text \<open>
  The invariant of a run under the policy \<open>p\<close> with the decorator \<open>d\<close>: the manager holds
  the tally of the outcomes passed so far (a decorator is given no fault to convert), the
  calls were numbered from one, and an exit went by the aggregate.
\<close>

definition governed :: "decorator \<Rightarrow> policy \<Rightarrow> 'v run \<Rightarrow> bool" where
  "governed d p s \<longleftrightarrow>
     mgr s = decorate d (policy_manager p (tally p (map fst (outcomes (trace s))))) \<and>
     seqnos (trace s) = map int [1..<Suc (length (outcomes (trace s)))] \<and>
     (\<forall>r. status s = Returned r \<longrightarrow>
        r = delivered d (aggregate p (map fst (outcomes (trace s)))) \<and> Panic r = None) \<and>
     (\<forall>f. status s = Raised f \<longrightarrow>
        Panic (delivered d (aggregate p (map fst (outcomes (trace s))))) = Some f \<or>
        trace s = [CancelE None])"

text \<open>
  The invariant of a run that no policy cancels: the scope is cancelled by the way out
  only, and every body saw the scope as the caller's scope is.
\<close>

definition undisturbed :: "'v run \<Rightarrow> bool" where
  "undisturbed s \<longleftrightarrow>
     cancellers (trace s) = [] \<and>
     (cancelled s \<longrightarrow> exited (status s)) \<and>
     (\<forall>i out. BodyE i out \<in> set (trace s) \<longrightarrow>
        i < length (workers s) \<and> out = (workers s ! i) (parent s))"

section \<open>Runs on an executer\<close>

text \<open>The states of a run of one of the entry points on the executer \<open>e\<close>.\<close>

inductive run_on :: "Executer \<Rightarrow> 'v run \<Rightarrow> bool" where
  Work: "run_on (executer_or_default e) (Work ctx e m g sched)"
| WorkFor: "run_on (executer_or_default e) (WorkFor ctx n e m w sched)"
| WorkChan: "run_on (executer_or_default e) (WorkChan ctx e m ch sched)"

text \<open>The closure is inside the body of its worker.\<close>

fun in_body :: "'v task \<Rightarrow> bool" where
  "in_body Running = True"
| "in_body _ = False"

section \<open>A schedule that lets a run finish\<close>

text \<open>
  The schedule that lets the entry point submit all of \<open>n\<close> workers and go on to
  \<^verbatim>\<open>wg.Wait()\<close>, then lets the closures run to their end one after the other, then lets
  the entry point leave.
\<close>

definition in_turn :: "nat \<Rightarrow> choice list" where
  "in_turn n =
     replicate (Suc n) Main @ concat (map (\<lambda>i. replicate 4 (Task i)) [0..<n]) @ [Main]"

text \<open>
  A run under a built-in manager in which all workers are submitted and the first \<open>k\<close>
  closures are over, the others not started.
\<close>

definition lined_up :: "decorator \<Rightarrow> policy \<Rightarrow> 'v Worker list \<Rightarrow> nat \<Rightarrow> 'v run \<Rightarrow> bool" where
  "lined_up d p g k s \<longleftrightarrow>
     status s = Waiting \<and> queue s = [] \<and> workers s = g \<and>
     tasks s = replicate k Exited @ replicate (length g - k) Queued \<and>
     wg s = int (length g - k) \<and>
     (\<exists>ps. mgr s = decorate d (policy_manager p ps))"

section \<open>The accumulating manager of the tests\<close>

text \<open>
  \<^verbatim>\<open>
  func (m *AccumulateManager) Manage(ctx Ctx, c Canceller, idx int, err *error) int {
      n := m.manager.Manage(ctx, c, idx, err)
      m.mutex.Lock()
      defer m.mutex.Unlock()
      for len(m.Errors) < n {
          m.Errors = append(m.Errors, nil)
      }
      m.Errors[n-1] = *err
      return n
  }
  \<close>
  from \<^verbatim>\<open>manager_test.go\<close>, with the signature that \<^verbatim>\<open>work.go\<close> calls (no index, the
  outcome by value). \<open>AccumulateManager m errs\<close> is the object with the inner manager \<open>m\<close>
  and the field \<^verbatim>\<open>Errors\<close> equal to \<open>errs\<close>. For \<open>n < 1\<close> the loop does nothing and the
  index \<open>n - 1\<close> is out of range, which raises a fault of the runtime.
\<close>

primcorec AccumulateManager :: "'v Manager \<Rightarrow> 'v error option list \<Rightarrow> 'v Manager" where
  "Manage (AccumulateManager m errs) = (\<lambda>ctx err flt.
     (let r = Manage m ctx err flt; n = seqno r
      in Managed
           (AccumulateManager (next_manager r)
              (if n < 1 then errs
               else (errs @ replicate (nat n - length errs) None)[nat n - 1 := err]))
           (cancel_called r)
           (if n < 1 then Some (RuntimeError ''index out of range'') else inflight r)
           n))"
| "Result (AccumulateManager m errs) = (fst (Result m), AccumulateManager (snd (Result m)) errs)"

text \<open>
  The invariant of a run under the accumulating manager over a built-in manager: the field
  \<^verbatim>\<open>Errors\<close> holds the outcomes passed to \<^verbatim>\<open>Manage\<close>, in the order of the calls.
\<close>

definition accumulated :: "decorator \<Rightarrow> policy \<Rightarrow> 'v run \<Rightarrow> bool" where
  "accumulated d p s \<longleftrightarrow>
     mgr s =
       AccumulateManager
         (decorate d (policy_manager p (tally p (map fst (outcomes (trace s))))))
         (map fst (outcomes (trace s))) \<and>
     seqnos (trace s) = map int [1..<Suc (length (outcomes (trace s)))]"

text \<open>
  The invariant of a fault in a worker. A closure that called \<^verbatim>\<open>Manage\<close> while a fault
  was in flight still has a fault in flight when it goes on to \<^verbatim>\<open>wg.Done()\<close>, and once
  it has decremented the counter the process has crashed.
\<close>

definition fatal :: "'v run \<Rightarrow> bool" where
  "fatal s \<longleftrightarrow>
     (\<forall>i flt err f n. i < length (tasks s) \<and> tasks s ! i = Leaving flt \<and>
        ManageE i err (Some f) n \<in> set (trace s) \<longrightarrow> flt \<noteq> None) \<and>
     (\<forall>i err f n. ManageE i err (Some f) n \<in> set (trace s) \<and> DoneE i \<in> set (trace s) \<longrightarrow>
        (\<exists>f'. status s = Crashed f'))"

text \<open>
  The worker of \<^verbatim>\<open>TestRecoverManager\<close> and \<^verbatim>\<open>TestRepanicManager\<close>, with the index 500
  of the tests scaled down to 1: the worker of that index raises a fault, the others
  return the error of the scope when it is done and nil otherwise.
\<close>

definition test_worker :: "string WorkerIdx" where
  "test_worker c index =
     (if index = 1 then Panics (Value ''worker 1 failed'')
      else if Done c then Returns (Some Canceled) else Returns None)"


section \<open>The invariant of a run\<close>

lemma calls_append [simp]: "calls i (xs @ ys) = calls i xs @ calls i ys"
  by (simp add: calls_def)

lemma calls_Nil [simp]: "calls i [] = []"
  by (simp add: calls_def)

lemma calls_Cons [simp]:
  "calls i (e # evs) = (if worker_of e = Some i then e # calls i evs else calls i evs)"
  by (simp add: calls_def)

lemma filter_update_drop:
  "i < length ts \<Longrightarrow> P (ts ! i) \<Longrightarrow> \<not> P x \<Longrightarrow>
   Suc (length (filter P (ts[i := x]))) = length (filter P ts)"
proof (induction ts arbitrary: i)
  case Nil
  then show ?case by simp
next
  case (Cons t ts)
  then show ?case by (cases i) auto
qed

lemma filter_update_keep:
  "i < length ts \<Longrightarrow> P (ts ! i) = P x \<Longrightarrow>
   length (filter P (ts[i := x])) = length (filter P ts)"
proof (induction ts arbitrary: i)
  case Nil
  then show ?case by simp
next
  case (Cons t ts)
  then show ?case by (cases i) auto
qed

lemma pending_unwind [simp]: "pending (unwind out)"
  by (cases out) simp_all

lemma active_unwind [simp]: "active (unwind out)"
  by (cases out) simp_all

lemma agrees_unwind [simp]: "agrees w i (unwind (w c)) [BodyE i (w c)]"
proof (cases "w c")
  case (Returns err)
  then have "unwind (w c) = Managing err None \<and> [BodyE i (w c)] = [BodyE i (w c)]" by simp
  with Returns show ?thesis by (metis agrees.simps(3) unwind.simps(1))
next
  case (Panics f)
  then have "unwind (w c) = Managing None (Some f) \<and> [BodyE i (w c)] = [BodyE i (w c)]" by simp
  with Panics show ?thesis by (metis agrees.simps(3) unwind.simps(2))
qed

lemma consistent_start: "consistent g (start ctx m g lz cl)"
  by (simp add: consistent_def start_def)

lemma consistent_main_step:
  assumes "consistent g s"
  shows "consistent g (main_step s)"
proof (cases "status s")
  case Submitting
  show ?thesis
  proof (cases "queue s")
    case Nil
    with Submitting assms show ?thesis
      by (auto simp: main_step_def consistent_def)
  next
    case (Cons w ws)
    with Submitting assms show ?thesis
      by (auto simp: main_step_def consistent_def nth_append)
  qed
next
  case Waiting
  show ?thesis
  proof (cases "wg s = 0")
    case False
    with Waiting assms show ?thesis by (simp add: main_step_def)
  next
    case True
    with Waiting assms have q: "queue s = []" and f: "filter pending (tasks s) = []"
      by (auto simp: consistent_def split: if_splits)
    from f have ex: "\<forall>t \<in> set (tasks s). t = Exited"
      by (metis filter_empty_conv pending.elims(3))
    with Waiting True assms q f show ?thesis
      by (auto simp: main_step_def finish_def consistent_def Let_def split: prod.splits option.splits)
  qed
qed (use assms in \<open>simp_all add: main_step_def\<close>)

lemma consistent_task_step:
  assumes "consistent g s"
  shows "consistent g (task_step adm i s)"
proof (cases "i < length (tasks s)")
  case False
  then show ?thesis using assms by (simp add: task_step_def)
next
  case True
  from assms True have ag: "agrees (workers s ! i) i (tasks s ! i) (calls i (trace s))"
    by (auto simp: consistent_def split: if_splits)
  have ne: "\<not> exited (status s)" if "tasks s ! i \<noteq> Exited"
    using that assms True nth_mem [of i "tasks s"] by (auto simp: consistent_def)
  show ?thesis
  proof (cases "tasks s ! i")
    case Queued
    with True assms ag ne show ?thesis
      by (auto simp: task_step_def consistent_def nth_list_update filter_update_keep)
  next
    case Running
    with True assms ag ne show ?thesis
      by (auto simp: task_step_def consistent_def nth_list_update filter_update_keep Let_def)
  next
    case (Managing err flt)
    with True assms ag ne show ?thesis
      by (auto simp: task_step_def consistent_def nth_list_update filter_update_keep Let_def)
  next
    case (Leaving flt)
    then have "Suc (length (filter pending ((tasks s)[i := Exited]))) = length (filter pending (tasks s))"
      using True by (intro filter_update_drop) auto
    then have "int (length (filter pending ((tasks s)[i := Exited]))) = int (length (filter pending (tasks s))) - 1"
      by linarith
    with Leaving True assms ag ne show ?thesis
      by (auto simp: task_step_def consistent_def nth_list_update split: option.splits)
  next
    case Exited
    with True assms show ?thesis by (simp add: task_step_def)
  qed
qed

lemma consistent_step: "consistent g s \<Longrightarrow> consistent g (step adm c s)"
  by (simp add: step_def consistent_main_step consistent_task_step split: status.splits choice.splits)

lemma consistent_exec: "consistent g s \<Longrightarrow> consistent g (exec adm sched s)"
  unfolding exec_def by (induction sched arbitrary: s) (simp_all add: consistent_step)

lemma is_run_consistent:
  assumes "is_run s"
  shows "consistent (workload s) s"
proof -
  have "\<exists>g. consistent g s"
    using assms
  proof cases
    case (Work ctx e m g sched)
    then show ?thesis
      unfolding Work_def using consistent_exec [OF consistent_start] by blast
  next
    case (WorkFor ctx n e m w sched)
    show ?thesis
    proof (cases "n < 0")
      case True
      with WorkFor have "consistent [] s"
        by (simp add: WorkFor_def consistent_def start_def)
      then show ?thesis ..
    next
      case False
      with WorkFor show ?thesis
        unfolding WorkFor_def using consistent_exec [OF consistent_start] by (simp only: if_False) blast
    qed
  next
    case (WorkChan ctx e m ch sched)
    then show ?thesis
      unfolding WorkChan_def using consistent_exec [OF consistent_start] by blast
  qed
  then show ?thesis
    by (auto simp: consistent_def workload_def)
qed

section \<open>The closure of a worker\<close>

lemmas run_defs = Work_def WorkFor_def WorkChan_def exec_def step_def main_step_def
  task_step_def finish_def start_def ctx_or_TODO_def executer_or_default_def
  manager_or_default_def DefaultManager_def DefaultExecuter_def child_def TODO_def
  pstate0_def Let_def recovered_def

lemma calls_cases:
  assumes "consistent g s"
  obtains
    (idle) "calls i (trace s) = []"
  | (body) out err flt where "unwind out = Managing err flt"
      "calls i (trace s) = [BodyE i out]"
  | (managed) out err flt n where "unwind out = Managing err flt"
      "calls i (trace s) = [BodyE i out, ManageE i err flt n]"
  | (over) out err flt n where "unwind out = Managing err flt"
      "calls i (trace s) = [BodyE i out, ManageE i err flt n, DoneE i]"
proof (cases "i < length (tasks s)")
  case False
  with assms have "calls i (trace s) = []"
    by (auto simp: consistent_def split: if_splits)
  then show ?thesis by (rule idle)
next
  case True
  with assms have ag: "agrees (workers s ! i) i (tasks s ! i) (calls i (trace s))"
    by (auto simp: consistent_def split: if_splits)
  show ?thesis
  proof (cases "tasks s ! i")
    case Queued
    with ag show ?thesis by (simp add: idle)
  next
    case Running
    with ag show ?thesis by (simp add: idle)
  next
    case (Managing err flt)
    with ag show ?thesis using body by auto
  next
    case (Leaving f)
    with ag show ?thesis using managed by auto
  next
    case Exited
    with ag show ?thesis using over by auto
  qed
qed

lemma calls_shape:
  assumes "consistent g s"
  shows "\<exists>out err flt n. prefix (calls i (trace s)) [BodyE i out, ManageE i err flt n, DoneE i]"
  using assms
proof (cases rule: calls_cases [where i = i])
  case idle
  then show ?thesis by simp
next
  case (body out err flt)
  then show ?thesis by simp
next
  case (managed out err flt n)
  then show ?thesis by simp
next
  case (over out err flt n)
  then show ?thesis by simp
qed

lemma calls_complete:
  assumes "consistent g s" and "exited (status s)" and "i < length g"
  shows "\<exists>c err flt n. unwind ((g ! i) c) = Managing err flt \<and>
           calls i (trace s) = [BodyE i ((g ! i) c), ManageE i err flt n, DoneE i]"
proof -
  from assms have q: "queue s = []" and w: "workers s = g"
    by (auto simp: consistent_def)
  with assms have i: "i < length (tasks s)" by (auto simp: consistent_def)
  with assms have "tasks s ! i = Exited"
    using nth_mem [of i "tasks s"] by (auto simp: consistent_def)
  moreover from assms i have "agrees (workers s ! i) i (tasks s ! i) (calls i (trace s))"
    by (auto simp: consistent_def split: if_splits)
  ultimately show ?thesis using w by auto
qed

subsection \<open>Claim C1\<close>

text \<open>
  C1. In every run started by \<^verbatim>\<open>Work\<close>, \<^verbatim>\<open>WorkFor\<close> or \<^verbatim>\<open>WorkChan\<close>, under every
  schedule, what the closure of a worker did is an initial part of: the body ran,
  \<^verbatim>\<open>Manage\<close> was called, the completion counter was decremented. So \<^verbatim>\<open>Manage\<close> is
  called at most once per worker and before the decrement, whatever the body did, a fault
  included. When the entry point has given control back, the closure of every worker of
  the run did all three, so \<^verbatim>\<open>Manage\<close> was called exactly once for it.
\<close>

theorem manage_exactly_once_before_done:
  assumes "is_run s"
  shows "(\<exists>out err flt n. prefix (calls i (trace s))
            [BodyE i out, ManageE i err flt n, DoneE i]) \<and>
         (exited (status s) \<and> i < length (workload s) \<longrightarrow>
            (\<exists>out err flt n. calls i (trace s) =
               [BodyE i out, ManageE i err flt n, DoneE i]))"
proof -
  from assms have c: "consistent (workload s) s" by (rule is_run_consistent)
  from calls_shape [OF c] calls_complete [OF c] show ?thesis by blast
qed

text \<open>A run without a fault: two workers under the default manager, one after the other.\<close>

lemma sample_plain_status:
  "status (Work None None None [succeeds, fails] in_turn2) = Returned (Some (Failure ''x''))"
  by (simp add: run_defs in_turn2_def succeeds_def fails_def)

lemma sample_plain_trace:
  "trace (Work None None None [succeeds, fails] in_turn2) =
     [BodyE 0 (Returns None), ManageE 0 None None 1, DoneE 0,
      BodyE 1 (Returns (Some (Failure ''x''))), ManageE 1 (Some (Failure ''x'')) None 2, DoneE 1,
      ResultE (Some (Failure ''x'')), ResultE (Some (Failure ''x'')), CancelE None]"
  by (simp add: run_defs in_turn2_def succeeds_def fails_def)

theorem manage_exactly_once_before_done_witness:
  "is_run (Work None None None [succeeds, fails] in_turn2) \<and>
   exited (status (Work None None None [succeeds, fails] in_turn2)) \<and>
   1 < length (workload (Work None None None [succeeds, fails] in_turn2)) \<and>
   (\<exists>out err flt n.
      calls 1 (trace (Work None None None [succeeds, fails] in_turn2)) =
        [BodyE 1 out, ManageE 1 err flt n, DoneE 1])"
proof -
  let ?s = "Work None None None [succeeds, fails] in_turn2"
  have r: "is_run ?s" by (rule is_run.Work)
  have e: "exited (status ?s)" by (simp add: sample_plain_status)
  have l: "1 < length (workload ?s)"
    by (simp add: run_defs in_turn2_def workload_def succeeds_def fails_def)
  from manage_exactly_once_before_done [OF r, of 1] e l
  have "\<exists>out err flt n. calls 1 (trace ?s) = [BodyE 1 out, ManageE 1 err flt n, DoneE 1]"
    by (elim conjE impE) (rule conjI)
  with r e l show ?thesis by (intro conjI)
qed

subsection \<open>Claim C10\<close>

lemma in_calls: "e \<in> set evs \<Longrightarrow> worker_of e = Some i \<Longrightarrow> e \<in> set (calls i evs)"
  by (simp add: calls_def)

text \<open>
  C10. When the body of worker \<open>i\<close> raised the fault \<open>f\<close>, every call of \<^verbatim>\<open>Manage\<close>
  for that worker has a nil outcome (the variable \<^verbatim>\<open>err\<close> was never assigned) while
  \<open>f\<close> is in flight; and when the closure is over, that call was made before the counter
  was decremented and the fault left the goroutine.
\<close>

theorem fault_is_managed_as_nil:
  assumes "is_run s" and "BodyE i (Panics f) \<in> set (trace s)"
  shows "(\<forall>err flt n. ManageE i err flt n \<in> set (trace s) \<longrightarrow> err = None \<and> flt = Some f) \<and>
         (DoneE i \<in> set (trace s) \<longrightarrow>
            (\<exists>n. calls i (trace s) = [BodyE i (Panics f), ManageE i None (Some f) n, DoneE i]))"
proof -
  from assms(1) have c: "consistent (workload s) s" by (rule is_run_consistent)
  from assms(2) have b: "BodyE i (Panics f) \<in> set (calls i (trace s))"
    by (simp add: in_calls)
  have m: "ManageE i err flt n \<in> set (trace s) \<Longrightarrow> ManageE i err flt n \<in> set (calls i (trace s))"
    for err flt n by (simp add: in_calls)
  have d: "DoneE i \<in> set (trace s) \<Longrightarrow> DoneE i \<in> set (calls i (trace s))"
    by (simp add: in_calls)
  from c show ?thesis
  proof (cases rule: calls_cases [where i = i])
    case idle
    with b show ?thesis by simp
  next
    case (body out err flt)
    with b m d show ?thesis by fastforce
  next
    case (managed out err flt n)
    with b m d show ?thesis by fastforce
  next
    case (over out err flt n)
    with b m d show ?thesis by fastforce
  qed
qed

lemma sample_crash_trace:
  "trace (Work None None None [booms] [Main, Main, Task 0, Task 0, Task 0, Task 0]) =
     [BodyE 0 (Panics (Value ''boom'')), ManageE 0 None (Some (Value ''boom'')) 1, DoneE 0]"
  by (simp add: run_defs booms_def)

theorem fault_is_managed_as_nil_witness:
  "BodyE 0 (Panics (Value ''boom''))
     \<in> set (trace (Work None None None [booms] [Main, Main, Task 0, Task 0, Task 0, Task 0])) \<and>
   DoneE 0 \<in> set (trace (Work None None None [booms] [Main, Main, Task 0, Task 0, Task 0, Task 0])) \<and>
   (\<exists>n. calls 0 (trace (Work None None None [booms] [Main, Main, Task 0, Task 0, Task 0, Task 0])) =
      [BodyE 0 (Panics (Value ''boom'')), ManageE 0 None (Some (Value ''boom'')) n, DoneE 0])"
proof -
  let ?s = "Work None None None [booms] [Main, Main, Task 0, Task 0, Task 0, Task 0]"
  have r: "is_run ?s" by (rule is_run.Work)
  have b: "BodyE 0 (Panics (Value ''boom'')) \<in> set (trace ?s)"
    by (simp add: sample_crash_trace)
  have d: "DoneE 0 \<in> set (trace ?s)"
    by (simp add: sample_crash_trace)
  from fault_is_managed_as_nil [OF r b] d
  have "\<exists>n. calls 0 (trace ?s) =
          [BodyE 0 (Panics (Value ''boom'')), ManageE 0 None (Some (Value ''boom'')) n, DoneE 0]"
    by (elim conjE impE) assumption+
  with b d show ?thesis by (intro conjI)
qed

section \<open>The way out of an entry point\<close>

lemma exited_stable:
  assumes "consistent g s" and "exited (status s)"
  shows "step adm c s = s"
proof (cases c)
  case Main
  with assms(2) show ?thesis
    by (cases "status s") (simp_all add: step_def main_step_def)
next
  case (Task i)
  have "task_step adm i s = s"
  proof (cases "i < length (tasks s)")
    case True
    with assms have "tasks s ! i = Exited"
      using nth_mem [of i "tasks s"] by (auto simp: consistent_def)
    with True show ?thesis by (simp add: task_step_def)
  qed (simp add: task_step_def)
  with Task show ?thesis by (simp add: step_def split: status.splits)
qed

lemma closing_start: "closing (start ctx m g lz cl)"
  by (simp add: closing_def start_def)

lemma finish_returns:
  assumes "Panic (fst (Result (mgr s))) = None"
  shows "finish s = s\<lparr>mgr := snd (Result (snd (Result (mgr s)))), cancelled := True,
           status := Returned (fst (Result (snd (Result (mgr s))))),
           trace := trace s @ [ResultE (fst (Result (mgr s))),
                     ResultE (fst (Result (snd (Result (mgr s))))), CancelE None]\<rparr>"
  using assms by (simp add: finish_def case_prod_beta)

lemma finish_raises:
  assumes "Panic (fst (Result (mgr s))) = Some f"
  shows "finish s = s\<lparr>mgr := snd (Result (mgr s)), cancelled := True, status := Raised f,
           trace := trace s @ [ResultE (fst (Result (mgr s))), CancelE None]\<rparr>"
  using assms by (simp add: finish_def case_prod_beta)

lemma closing_finish:
  assumes "\<not> list_ex entry_event (trace s)"
  shows "closing (finish s)"
proof (cases "Panic (fst (Result (mgr s)))")
  case None
  then have "status (finish s) = Returned (fst (Result (snd (Result (mgr s)))))"
    and "trace (finish s) = trace s @ [ResultE (fst (Result (mgr s))),
           ResultE (fst (Result (snd (Result (mgr s))))), CancelE None]"
    and "mgr (finish s) = snd (Result (snd (Result (mgr s))))"
    and "cancelled (finish s)"
    by (simp_all add: finish_returns)
  with None assms show ?thesis
    unfolding closing_def by simp blast
next
  case (Some f)
  then have "status (finish s) = Raised f"
    and "trace (finish s) = trace s @ [ResultE (fst (Result (mgr s))), CancelE None]"
    and "mgr (finish s) = snd (Result (mgr s))"
    and "cancelled (finish s)"
    by (simp_all add: finish_raises)
  with Some assms show ?thesis
    unfolding closing_def by simp blast
qed

lemma closing_main_step:
  assumes "closing s"
  shows "closing (main_step s)"
proof (cases "status s")
  case Submitting
  with assms show ?thesis
    by (auto simp: main_step_def closing_def split: list.splits)
next
  case Waiting
  with assms have "\<not> list_ex entry_event (trace s)" by (simp add: closing_def)
  then have "closing (finish s)" by (rule closing_finish)
  with Waiting assms show ?thesis by (simp add: main_step_def)
qed (use assms in \<open>simp_all add: main_step_def\<close>)

lemma closing_task_step:
  assumes "closing s" and "\<not> exited (status s)"
  shows "closing (task_step adm i s)"
proof (cases "i < length (tasks s)")
  case False
  with assms show ?thesis by (simp add: task_step_def)
next
  case True
  from assms have q: "\<not> list_ex entry_event (trace s)"
    by (cases "status s") (simp_all add: closing_def)
  show ?thesis
  proof (cases "tasks s ! i")
    case (Leaving flt)
    with True assms q show ?thesis
      by (cases "status s"; cases flt) (simp_all add: task_step_def closing_def)
  qed (use True assms q in \<open>cases "status s"; simp add: task_step_def closing_def Let_def\<close>)+
qed

lemma closing_step:
  assumes "consistent g s" and "closing s"
  shows "closing (step adm c s)"
proof (cases "exited (status s)")
  case True
  with assms show ?thesis by (simp add: exited_stable)
next
  case False
  with assms(2) show ?thesis
    by (cases c) (simp_all add: step_def closing_main_step closing_task_step split: status.splits)
qed

lemma closing_exec:
  "consistent g s \<Longrightarrow> closing s \<Longrightarrow> closing (exec adm sched s)"
  unfolding exec_def
  by (induction sched arbitrary: s) (simp_all add: consistent_step closing_step)

lemma is_run_closing:
  assumes "is_run s"
  shows "closing s"
  using assms
proof cases
  case (Work ctx e m g sched)
  then show ?thesis
    unfolding Work_def by (simp add: closing_exec [OF consistent_start closing_start])
next
  case (WorkFor ctx n e m w sched)
  show ?thesis
  proof (cases "n < 0")
    case True
    with WorkFor show ?thesis by (simp add: WorkFor_def closing_def start_def)
  next
    case False
    with WorkFor show ?thesis
      unfolding WorkFor_def by (simp add: closing_exec [OF consistent_start closing_start])
  qed
next
  case (WorkChan ctx e m ch sched)
  then show ?thesis
    unfolding WorkChan_def by (simp add: closing_exec [OF consistent_start closing_start])
qed

subsection \<open>Claim C4\<close>

text \<open>
  C4. Whenever one of the entry points has given control back to its caller, by a return
  (of nil or of an error) or by a re-raised fault, the scope derived for the run is
  cancelled: the deferred \<^verbatim>\<open>cancel()\<close> is the last thing that happened, whether or not a
  policy had invoked the canceller before.
\<close>

theorem child_scope_cancelled_on_exit:
  assumes "is_run s" and "exited (status s)"
  shows "cancelled s \<and> Done (child s) \<and> last (trace s) = CancelE None"
proof -
  from assms(1) have "closing s" by (rule is_run_closing)
  with assms(2) show ?thesis
    by (cases "status s") (auto simp: closing_def child_def)
qed

theorem child_scope_cancelled_on_exit_witness:
  "exited (status (Work None None None [succeeds, fails] in_turn2)) \<and>
   cancellers (trace (Work None None None [succeeds, fails] in_turn2)) = [] \<and>
   cancelled (Work None None None [succeeds, fails] in_turn2) \<and>
   last (trace (Work None None None [succeeds, fails] in_turn2)) = CancelE None"
proof -
  let ?s = "Work None None None [succeeds, fails] in_turn2"
  have r: "is_run ?s" by (rule is_run.Work)
  have e: "exited (status ?s)" by (simp add: sample_plain_status)
  have q: "cancellers (trace ?s) = []" by (simp add: sample_plain_trace)
  note c = child_scope_cancelled_on_exit [OF r e]
  from c have "cancelled ?s" by (rule conjunct1)
  moreover from c have "last (trace ?s) = CancelE None"
    by (rule conjunct2 [THEN conjunct2])
  ultimately show ?thesis using e q by (intro conjI)
qed

subsection \<open>Claim C9\<close>



text \<open>
  When the probe finds the capability, the re-raise comes before the second call: the
  trace ends with the one call of \<^verbatim>\<open>Result\<close> and the cancellation.
\<close>

lemma reraise_probes_once:
  assumes "is_run s" and "status s = Raised f" and "trace s \<noteq> [CancelE None]"
  shows "\<exists>pre M. trace s = pre @ [ResultE (fst (Result M)), CancelE None] \<and>
           \<not> list_ex entry_event pre \<and> Panic (fst (Result M)) = Some f"
proof -
  from assms(1) have "closing s" by (rule is_run_closing)
  with assms(2,3) show ?thesis by (auto simp: closing_def)
qed

text \<open>
  The built-in managers are idempotent. For a manager that is not, the entry point returns
  an outcome that it did not probe: here one with the re-raise capability, never raised.
\<close>

lemma policy_manager_idempotent: "idempotent (policy_manager p ps)"
  by (simp add: idempotent_def)

lemma Recover_idempotent: "idempotent M \<Longrightarrow> idempotent (Recover M)"
  by (simp add: idempotent_def)

lemma Repanic_idempotent: "idempotent M \<Longrightarrow> idempotent (Repanic M)"
  by (simp add: idempotent_def)

lemma moody_not_idempotent: "\<not> idempotent (moody False)"
  by (simp add: idempotent_def)

lemma moody_returns_unraised:
  "status (Work None None (Some (moody False)) [] [Main, Main]) =
     Returned (Some (RepanicError (Value ''late'')))"
  by (simp add: run_defs)

section \<open>Missing arguments\<close>

subsection \<open>Claim C8\<close>

text \<open>
  C8. For each of the three entry points: a nil scope behaves as the scope
  \<^verbatim>\<open>context.TODO()\<close>, which is never done; a nil executer behaves as the unbounded
  executer; a nil manager behaves as a fresh \<^verbatim>\<open>CancelNeverFirstError\<close> manager. The run
  is the same state for state, under every schedule.
\<close>

theorem nil_arguments_default:
  "\<not> Done TODO \<and>
   Work None e m g sched = Work (Some TODO) e m g sched \<and>
   Work ctx None m g sched = Work ctx (Some Unbounded) m g sched \<and>
   Work ctx e None g sched =
     Work ctx e (Some (policy_manager CancelNeverFirstError pstate0)) g sched \<and>
   WorkFor None n e m w sched = WorkFor (Some TODO) n e m w sched \<and>
   WorkFor ctx n None m w sched = WorkFor ctx n (Some Unbounded) m w sched \<and>
   WorkFor ctx n e None w sched =
     WorkFor ctx n e (Some (policy_manager CancelNeverFirstError pstate0)) w sched \<and>
   WorkChan None e m ch sched = WorkChan (Some TODO) e m ch sched \<and>
   WorkChan ctx None m ch sched = WorkChan ctx (Some Unbounded) m ch sched \<and>
   WorkChan ctx e None ch sched =
     WorkChan ctx e (Some (policy_manager CancelNeverFirstError pstate0)) ch sched"
  by (simp add: Work_def WorkFor_def WorkChan_def ctx_or_TODO_def executer_or_default_def
      manager_or_default_def DefaultExecuter_def DefaultManager_def TODO_def)

section \<open>Runs under the built-in managers\<close>

lemma outcomes_append [simp]: "outcomes (xs @ ys) = outcomes xs @ outcomes ys"
  by (induction xs rule: outcomes.induct) simp_all

lemma seqnos_append [simp]: "seqnos (xs @ ys) = seqnos xs @ seqnos ys"
  by (induction xs rule: seqnos.induct) simp_all

lemma bodies_append [simp]: "bodies i (xs @ ys) = bodies i xs @ bodies i ys"
  by (induction i xs rule: bodies.induct) simp_all

lemma cancellers_append [simp]: "cancellers (xs @ ys) = cancellers xs @ cancellers ys"
  by (induction xs rule: cancellers.induct) simp_all

lemma count_after [simp]: "count (after p s err) = count s + 1"
  by (simp add: after_def)

lemma count_foldl_after: "count (foldl (after p) s outs) = count s + int (length outs)"
  by (induction outs arbitrary: s) simp_all

lemma count_tally [simp]: "count (tally p outs) = int (length outs)"
  by (simp add: tally_def count_foldl_after pstate0_def)

lemma tally_snoc [simp]: "tally p (outs @ [err]) = after p (tally p outs) err"
  by (simp add: tally_def)

text \<open>The table of policies: what a policy has chosen after a list of outcomes.\<close>

lemma first_failure_snoc:
  "first_failure (outs @ [err]) = (if first_failure outs = None then err else first_failure outs)"
  by (induction outs rule: first_failure.induct) (cases err; simp)+

lemma first_failure_None: "first_failure outs = None \<longleftrightarrow> (\<forall>out \<in> set outs. out = None)"
  by (induction outs rule: first_failure.induct) simp_all

lemma never_first_error_state:
  "decided (tally CancelNeverFirstError outs) = (first_failure outs \<noteq> None) \<and>
   chosen (tally CancelNeverFirstError outs) = first_failure outs"
proof (induction outs rule: rev_induct)
  case Nil
  then show ?case by (simp add: tally_def pstate0_def)
next
  case (snoc err outs)
  then show ?case by (auto simp: after_def first_failure_snoc)
qed

lemma on_first_error_state:
  "decided (tally CancelOnFirstError outs) = (first_failure outs \<noteq> None) \<and>
   chosen (tally CancelOnFirstError outs) = first_failure outs"
proof (induction outs rule: rev_induct)
  case Nil
  then show ?case by (simp add: tally_def pstate0_def)
next
  case (snoc err outs)
  then show ?case by (auto simp: after_def first_failure_snoc)
qed

lemma on_first_success_state:
  "decided (tally CancelOnFirstSuccess outs) = (None \<in> set outs) \<and>
   chosen (tally CancelOnFirstSuccess outs) =
     (if None \<in> set outs then None else first_failure outs)"
proof (induction outs rule: rev_induct)
  case Nil
  then show ?case by (simp add: tally_def pstate0_def)
next
  case (snoc err outs)
  then show ?case by (auto simp: after_def first_failure_snoc)
qed

lemma on_first_complete_state:
  "decided (tally CancelOnFirstComplete outs) = (outs \<noteq> []) \<and>
   chosen (tally CancelOnFirstComplete outs) = (case outs of [] \<Rightarrow> None | out # _ \<Rightarrow> out)"
proof (induction outs rule: rev_induct)
  case Nil
  then show ?case by (simp add: tally_def pstate0_def)
next
  case (snoc err outs)
  have t: "tally CancelOnFirstComplete (outs @ [err]) =
      after CancelOnFirstComplete (tally CancelOnFirstComplete outs) err"
    by simp
  show ?case
  proof (cases outs)
    case Nil
    with snoc show ?thesis unfolding t by (simp add: after_def)
  next
    case (Cons out outs')
    with snoc have "decided (tally CancelOnFirstComplete outs)"
      and "chosen (tally CancelOnFirstComplete outs) = out" by simp_all
    with Cons show ?thesis unfolding t by (simp add: after_def)
  qed
qed

lemma chosen_tally: "chosen (tally p outs) = aggregate p outs"
  by (cases p)
     (simp_all add: never_first_error_state on_first_error_state on_first_success_state
        on_first_complete_state)

text \<open>What the methods of a built-in manager answer.\<close>

lemma Manage_decorate:
  "Manage (decorate d (policy_manager p ps)) c err None =
     Managed (decorate d (policy_manager p (after p ps err)))
       (snd (decide p err ps)) None (count ps + 1)"
  by (cases d) (simp_all add: after_def Let_def recovered_def)

lemma Result_decorate:
  "Result (decorate d (policy_manager p ps)) =
     (delivered d (chosen ps), decorate d (policy_manager p ps))"
  by (cases d) simp_all

lemma length_seqnos: "length (seqnos evs) = length (outcomes evs)"
  by (induction evs rule: seqnos.induct) simp_all

lemma governed_start: "governed d p (start ctx (decorate d (policy_manager p pstate0)) g lz cl)"
  by (simp add: governed_def start_def tally_def)

lemma governed_finish:
  assumes "governed d p s" and "\<forall>t \<in> set (tasks s). t = Exited"
    and "\<not> list_ex entry_event (trace s)"
  shows "governed d p (finish s)"
proof -
  let ?r = "delivered d (aggregate p (map fst (outcomes (trace s))))"
  from assms(1) have m: "Result (mgr s) = (?r, mgr s)"
    by (simp add: governed_def Result_decorate chosen_tally)
  show ?thesis
  proof (cases "Panic ?r")
    case None
    with m have "finish s = s\<lparr>mgr := mgr s, cancelled := True, status := Returned ?r,
        trace := trace s @ [ResultE ?r, ResultE ?r, CancelE None]\<rparr>"
      by (simp add: finish_returns)
    with assms None show ?thesis by (simp add: governed_def)
  next
    case (Some f)
    with m have "finish s = s\<lparr>mgr := mgr s, cancelled := True, status := Raised f,
        trace := trace s @ [ResultE ?r, CancelE None]\<rparr>"
      by (simp add: finish_raises)
    with assms Some show ?thesis by (simp add: governed_def)
  qed
qed

lemma governed_main_step:
  assumes "governed d p s" and "consistent g s" and "closing s"
  shows "governed d p (main_step s)"
proof (cases "status s")
  case Submitting
  with assms(1) show ?thesis
    by (auto simp: main_step_def governed_def split: list.splits)
next
  case Waiting
  show ?thesis
  proof (cases "wg s = 0")
    case False
    with Waiting assms show ?thesis by (simp add: main_step_def)
  next
    case True
    with Waiting assms(2) have "filter pending (tasks s) = []"
      by (auto simp: consistent_def split: if_splits)
    then have "\<forall>t \<in> set (tasks s). t = Exited"
      by (metis filter_empty_conv pending.elims(3))
    moreover from Waiting assms(3) have "\<not> list_ex entry_event (trace s)"
      by (simp add: closing_def)
    ultimately have "governed d p (finish s)"
      using assms(1) by (intro governed_finish)
    with Waiting True show ?thesis by (simp add: main_step_def)
  qed
qed (use assms in \<open>simp_all add: main_step_def\<close>)

lemma governed_task_step:
  assumes "governed d p s" and "\<not> exited (status s)"
  shows "governed d p (task_step adm i s)"
proof (cases "i < length (tasks s)")
  case False
  with assms show ?thesis by (simp add: task_step_def)
next
  case True
  have st: "(\<forall>r. status s \<noteq> Returned r) \<and> (\<forall>f. status s \<noteq> Raised f)"
    using assms(2) by (cases "status s") simp_all
  show ?thesis
  proof (cases "tasks s ! i")
    case Queued
    with True assms(1) st show ?thesis
      by (auto simp: task_step_def governed_def)
  next
    case Running
    with True assms(1) st show ?thesis
      by (auto simp: task_step_def governed_def Let_def)
  next
    case (Managing err flt)
    let ?outs = "map fst (outcomes (trace s))"
    from assms(1) have m: "mgr s = decorate d (policy_manager p (tally p ?outs))"
      by (simp add: governed_def)
    have r: "Manage (mgr s) (child s) err None =
        Managed (decorate d (policy_manager p (tally p (?outs @ [err]))))
          (snd (decide p err (tally p ?outs))) None (int (length ?outs) + 1)"
      unfolding m Manage_decorate by simp
    from Managing True have ts: "task_step adm i s =
        s\<lparr>mgr := decorate d (policy_manager p (tally p (?outs @ [err]))),
          cancelled := (cancelled s \<or> snd (decide p err (tally p ?outs))),
          tasks := (tasks s)[i := Leaving flt],
          trace := trace s @ ManageE i err flt (int (length ?outs) + 1)
            # (if snd (decide p err (tally p ?outs)) then [CancelE (Some i)] else [])\<rparr>"
      by (simp add: task_step_def r Let_def)
    from assms(1) st show ?thesis
      unfolding ts by (auto simp: governed_def)
  next
    case (Leaving flt)
    with True assms(1) st show ?thesis
      by (cases flt) (auto simp: task_step_def governed_def)
  next
    case Exited
    with True assms show ?thesis by (simp add: task_step_def)
  qed
qed

lemma governed_step:
  assumes "governed d p s" and "consistent g s" and "closing s"
  shows "governed d p (step adm c s)"
proof (cases "exited (status s)")
  case True
  with assms show ?thesis by (simp add: exited_stable)
next
  case False
  with assms show ?thesis
    by (cases c) (simp_all add: step_def governed_main_step governed_task_step split: status.splits)
qed

lemma governed_exec:
  "governed d p s \<Longrightarrow> consistent g s \<Longrightarrow> closing s \<Longrightarrow> governed d p (exec adm sched s)"
  unfolding exec_def
  by (induction sched arbitrary: s) (simp_all add: consistent_step closing_step governed_step)

lemma exec_invariants:
  assumes "s = exec adm sched (start ctx (decorate d (policy_manager p pstate0)) g lz cl)"
  shows "consistent g s \<and> closing s \<and> governed d p s"
  unfolding assms
  using consistent_exec [OF consistent_start]
    closing_exec [OF consistent_start closing_start]
    governed_exec [OF governed_start consistent_start closing_start]
  by (intro conjI)

lemma run_with_invariants:
  assumes "run_with (decorate d (policy_manager p pstate0)) s"
  shows "consistent (workload s) s \<and> closing s \<and> governed d p s"
proof -
  have "\<exists>g. consistent g s \<and> closing s \<and> governed d p s"
    using assms
  proof cases
    case (Work m ctx e g sched)
    show ?thesis
      by (rule exI, rule exec_invariants) (simp add: Work Work_def)
  next
    case (WorkFor m ctx n e w sched)
    show ?thesis
    proof (cases "n < 0")
      case True
      with WorkFor have "consistent [] s" and "closing s" and "governed d p s"
        by (simp_all add: WorkFor_def consistent_def closing_def governed_def start_def tally_def)
      then show ?thesis by blast
    next
      case False
      show ?thesis
        by (rule exI, rule exec_invariants) (simp add: WorkFor WorkFor_def False)
    qed
  next
    case (WorkChan m ctx e ch sched)
    show ?thesis
      by (rule exI, rule exec_invariants) (simp add: WorkChan WorkChan_def)
  qed
  then show ?thesis
    by (auto simp: consistent_def workload_def)
qed

subsection \<open>Claim C3\<close>

text \<open>
  C3. In a run of any entry point under a built-in manager (one of the four policies,
  plain or under \<^verbatim>\<open>Recover\<close> or \<^verbatim>\<open>Repanic\<close>), under every schedule, the sequence
  numbers returned by the calls of \<^verbatim>\<open>Manage\<close>, read in the order in which the calls were
  made, are 1, 2, 3, ... without a gap or a repetition.
\<close>

theorem sequence_numbers_count_up:
  assumes "run_with (decorate d (policy_manager p pstate0)) s"
  shows "seqnos (trace s) = map int [1..<Suc (length (seqnos (trace s)))]"
proof -
  from run_with_invariants [OF assms]
  have "seqnos (trace s) = map int [1..<Suc (length (outcomes (trace s)))]"
    unfolding governed_def by blast
  then show ?thesis unfolding length_seqnos .
qed

lemma sample_recover_trace:
  "trace (Work None None (Some (Recover DefaultManager)) [succeeds, booms] in_turn2) =
     [BodyE 0 (Returns None), ManageE 0 None None 1, DoneE 0,
      BodyE 1 (Panics (Value ''boom'')), ManageE 1 None (Some (Value ''boom'')) 2, DoneE 1]"
  by (simp add: run_defs in_turn2_def succeeds_def booms_def)

theorem sequence_numbers_count_up_witness:
  "seqnos (trace (Work None None (Some (Recover DefaultManager)) [succeeds, booms] in_turn2)) =
     [1, 2]"
proof -
  let ?s = "Work None None (Some (Recover DefaultManager)) [succeeds, booms] in_turn2"
  have "run_with (manager_or_default (Some (Recover DefaultManager))) ?s"
    by (rule run_with.Work)
  then have "run_with (decorate Recovering (policy_manager CancelNeverFirstError pstate0)) ?s"
    by (simp add: manager_or_default_def DefaultManager_def)
  from sequence_numbers_count_up [OF this]
  have "seqnos (trace ?s) = map int [1..<Suc (length (seqnos (trace ?s)))]" .
  moreover have "length (seqnos (trace ?s)) = 2"
    by (simp add: sample_recover_trace)
  ultimately have "seqnos (trace ?s) = map int [1..<Suc 2]" by simp
  then show ?thesis by (simp add: upt_rec)
qed

section \<open>Runs that no policy cancels\<close>

lemma Ctx_Done [simp]: "Ctx (Done c) = c"
  by (cases c) simp

lemma undisturbed_start: "undisturbed (start ctx m g lz cl)"
  by (simp add: undisturbed_def start_def)

lemma undisturbed_main_step:
  assumes "undisturbed s"
  shows "undisturbed (main_step s)"
proof (cases "status s")
  case Submitting
  show ?thesis
  proof (cases "queue s")
    case Nil
    with Submitting assms show ?thesis by (simp add: main_step_def undisturbed_def)
  next
    case (Cons w ws)
    with Submitting assms show ?thesis
      by (simp add: main_step_def undisturbed_def nth_append) (meson less_Suc_eq)
  qed
next
  case Waiting
  show ?thesis
  proof (cases "Panic (fst (Result (mgr s)))")
    case None
    with Waiting assms show ?thesis
      by (auto simp: main_step_def undisturbed_def finish_returns)
  next
    case (Some f)
    with Waiting assms show ?thesis
      by (auto simp: main_step_def undisturbed_def finish_raises)
  qed
qed (use assms in \<open>simp_all add: main_step_def\<close>)

lemma undisturbed_task_step:
  assumes "undisturbed s" and "governed d CancelNeverFirstError s" and "\<not> exited (status s)"
    and "length (workers s) = length (tasks s)"
  shows "undisturbed (task_step adm i s)"
proof (cases "i < length (tasks s)")
  case False
  with assms show ?thesis by (simp add: task_step_def)
next
  case True
  from assms have nc: "\<not> cancelled s" by (auto simp: undisturbed_def)
  then have ch: "child s = parent s" by (simp add: child_def)
  show ?thesis
  proof (cases "tasks s ! i")
    case Queued
    with True assms(1) show ?thesis by (auto simp: task_step_def undisturbed_def)
  next
    case Running
    with True assms(1,3,4) ch show ?thesis
      by (auto simp: task_step_def undisturbed_def Let_def)
  next
    case (Managing err flt)
    from assms(2) have "\<not> cancel_called (Manage (mgr s) (child s) err None)"
      by (simp add: governed_def Manage_decorate)
    with Managing True assms(1,3) show ?thesis
      by (auto simp: task_step_def undisturbed_def Let_def)
  next
    case (Leaving flt)
    with True assms(1,3) show ?thesis
      by (cases flt) (auto simp: task_step_def undisturbed_def)
  next
    case Exited
    with True assms show ?thesis by (simp add: task_step_def)
  qed
qed

lemma undisturbed_step:
  assumes "undisturbed s" and "governed d CancelNeverFirstError s" and "consistent g s"
  shows "undisturbed (step adm c s)"
proof (cases "exited (status s)")
  case True
  with assms show ?thesis by (simp add: exited_stable)
next
  case False
  moreover from assms(3) have "length (workers s) = length (tasks s)"
    by (simp add: consistent_def)
  ultimately show ?thesis
    using assms(1,2)
    by (cases c)
       (simp_all add: step_def undisturbed_main_step undisturbed_task_step split: status.splits)
qed

lemma undisturbed_exec:
  "undisturbed s \<Longrightarrow> governed d CancelNeverFirstError s \<Longrightarrow> consistent g s \<Longrightarrow> closing s \<Longrightarrow>
   undisturbed (exec adm sched s)"
  unfolding exec_def
  by (induction sched arbitrary: s)
     (simp_all add: consistent_step closing_step governed_step undisturbed_step)

lemma parent_step [simp]: "parent (step adm c s) = parent s"
  by (cases c)
     (auto simp: step_def main_step_def task_step_def finish_def Let_def case_prod_beta
           split: status.splits list.splits task.splits option.splits)

lemma parent_exec [simp]: "parent (exec adm sched s) = parent s"
  unfolding exec_def by (induction sched arbitrary: s) simp_all

lemma bodies_calls: "bodies i (calls i evs) = bodies i evs"
  by (induction i evs rule: bodies.induct) simp_all

lemma set_calls: "set (calls i evs) \<subseteq> set evs"
  by (simp add: calls_def)

lemma outcomes_ManageE:
  "(err, flt) \<in> set (outcomes evs) \<Longrightarrow> \<exists>i n. ManageE i err flt n \<in> set evs"
  by (induction evs rule: outcomes.induct) auto

lemma delivered_None [simp]: "delivered d None = None"
  by (cases d) simp_all

lemma never_first_error_exec:
  assumes s: "s = exec adm sched
      (start c (decorate d (policy_manager CancelNeverFirstError pstate0)) g lz cl)"
    and r: "status s = Returned r"
  shows "(\<forall>i<length g. bodies i (trace s) = [(g ! i) c]) \<and>
         r = delivered d (first_failure (map fst (outcomes (trace s)))) \<and>
         ((\<forall>i<length g. (g ! i) c = Returns None) \<longrightarrow> r = None) \<and>
         cancellers (trace s) = []"
proof -
  from exec_invariants [OF s]
  have con: "consistent g s" and clo: "closing s" and gov: "governed d CancelNeverFirstError s"
    by simp_all
  have und: "undisturbed s"
    unfolding s
    using undisturbed_exec [OF undisturbed_start governed_start consistent_start closing_start] .
  have par: "parent s = c" by (simp add: s start_def)
  from r have ex: "exited (status s)" by simp
  from con ex have w: "workers s = g" and len: "length (tasks s) = length g"
    by (auto simp: consistent_def)
  have over: "\<exists>err flt n. unwind ((g ! i) c) = Managing err flt \<and>
      calls i (trace s) = [BodyE i ((g ! i) c), ManageE i err flt n, DoneE i]"
    if "i < length g" for i
  proof -
    from calls_complete [OF con ex that] obtain c' err flt n where
      u: "unwind ((g ! i) c') = Managing err flt" and
      cs: "calls i (trace s) = [BodyE i ((g ! i) c'), ManageE i err flt n, DoneE i]" by blast
    from cs have "BodyE i ((g ! i) c') \<in> set (calls i (trace s))" by simp
    with set_calls have "BodyE i ((g ! i) c') \<in> set (trace s)" by blast
    with und have "(g ! i) c' = (g ! i) c" by (simp add: undisturbed_def w par)
    with u cs show ?thesis by simp
  qed
  have b: "bodies i (trace s) = [(g ! i) c]" if "i < length g" for i
  proof -
    from over [OF that] obtain err flt n where
      "calls i (trace s) = [BodyE i ((g ! i) c), ManageE i err flt n, DoneE i]" by blast
    then have "bodies i (calls i (trace s)) = [(g ! i) c]" by simp
    then show ?thesis by (simp add: bodies_calls)
  qed
  from gov r have res: "r = delivered d (first_failure (map fst (outcomes (trace s))))"
    by (simp add: governed_def)
  have nil: "r = None" if all: "\<forall>i<length g. (g ! i) c = Returns None"
  proof -
    have "out = (None, None)" if "out \<in> set (outcomes (trace s))" for out
    proof -
      obtain err flt where out: "out = (err, flt)" by (cases out)
      with that outcomes_ManageE obtain i n where m: "ManageE i err flt n \<in> set (trace s)"
        by blast
      then have mc: "ManageE i err flt n \<in> set (calls i (trace s))" by (simp add: in_calls)
      have "i < length g"
      proof (rule ccontr)
        assume "\<not> i < length g"
        with con len have "calls i (trace s) = []"
          by (auto simp: consistent_def split: if_splits)
        with mc show False by simp
      qed
      from over [OF this] all \<open>i < length g\<close> mc have "err = None \<and> flt = None" by auto
      with out show ?thesis by simp
    qed
    then have "fst out = None" if "out \<in> set (outcomes (trace s))" for out
      using that by fastforce
    then have "first_failure (map fst (outcomes (trace s))) = None"
      by (simp add: first_failure_None)
    with res show ?thesis by simp
  qed
  from und have "cancellers (trace s) = []" by (simp add: undisturbed_def)
  with b res nil show ?thesis by blast
qed

subsection \<open>Claim C2\<close>

text \<open>
  C2. A run of \<^verbatim>\<open>Work\<close> over the workers \<open>g\<close>, or of \<^verbatim>\<open>WorkFor\<close> over the workers
  \<open>w(0), ..., w(n-1)\<close>, with the unbounded executer and \<^verbatim>\<open>CancelNeverFirstError\<close>, that
  returns \<open>r\<close>: the body of every worker ran exactly once, and saw the caller's scope not
  cancelled by the run; \<open>r\<close> is the first non-nil outcome in the order of the calls of
  \<^verbatim>\<open>Manage\<close>, which is the order of the sequence numbers, and nil when there is none; in
  particular \<open>r\<close> is nil when every worker returns nil; and the canceller was never
  invoked.
\<close>

theorem never_first_error_run:
  assumes "s = Work ctx (Some Unbounded)
                 (Some (policy_manager CancelNeverFirstError pstate0)) g sched \<or>
           s = WorkFor ctx n (Some Unbounded)
                 (Some (policy_manager CancelNeverFirstError pstate0)) w sched \<and>
             g = map (\<lambda>i c. w c (int i)) [0..<nat n]"
    and "status s = Returned r"
  shows "(\<forall>i<length g. bodies i (trace s) = [(g ! i) (ctx_or_TODO ctx)]) \<and>
         r = first_failure (map fst (outcomes (trace s))) \<and>
         ((\<forall>i<length g. (g ! i) (ctx_or_TODO ctx) = Returns None) \<longrightarrow> r = None) \<and>
         cancellers (trace s) = []"
proof -
  have "s = exec (admits Unbounded) sched
      (start (ctx_or_TODO ctx) (decorate Plain (policy_manager CancelNeverFirstError pstate0))
         g False True)"
    using assms(1)
  proof (elim disjE conjE)
    assume "s = Work ctx (Some Unbounded)
        (Some (policy_manager CancelNeverFirstError pstate0)) g sched"
    then show ?thesis
      by (simp add: Work_def executer_or_default_def manager_or_default_def)
  next
    assume w: "s = WorkFor ctx n (Some Unbounded)
        (Some (policy_manager CancelNeverFirstError pstate0)) w sched"
      and g: "g = map (\<lambda>i c. w c (int i)) [0..<nat n]"
    have "\<not> n < 0"
    proof
      assume "n < 0"
      with w have "status s = Raised (RuntimeError ''sync: negative WaitGroup counter'')"
        by (simp add: WorkFor_def)
      with assms(2) show False by simp
    qed
    with w g show ?thesis
      by (simp add: WorkFor_def executer_or_default_def manager_or_default_def)
  qed
  from never_first_error_exec [OF this assms(2)] have
    b: "\<forall>i<length g. bodies i (trace s) = [(g ! i) (ctx_or_TODO ctx)]" and
    res: "r = delivered Plain (first_failure (map fst (outcomes (trace s))))" and
    nil: "(\<forall>i<length g. (g ! i) (ctx_or_TODO ctx) = Returns None) \<longrightarrow> r = None" and
    c: "cancellers (trace s) = []"
    by blast+
  from res have "r = first_failure (map fst (outcomes (trace s)))" by simp
  with b nil c show ?thesis by (intro conjI)
qed

lemma sample_never_status:
  "status (Work None (Some Unbounded) (Some (policy_manager CancelNeverFirstError pstate0))
      [succeeds, fails] in_turn2) = Returned (Some (Failure ''x''))"
  by (simp add: run_defs in_turn2_def succeeds_def fails_def)

theorem never_first_error_run_witness:
  "status (Work None (Some Unbounded) (Some (policy_manager CancelNeverFirstError pstate0))
      [succeeds, fails] in_turn2) = Returned (Some (Failure ''x'')) \<and>
   bodies 1 (trace (Work None (Some Unbounded)
      (Some (policy_manager CancelNeverFirstError pstate0)) [succeeds, fails] in_turn2)) =
     [Returns (Some (Failure ''x''))] \<and>
   first_failure (map fst (outcomes (trace (Work None (Some Unbounded)
      (Some (policy_manager CancelNeverFirstError pstate0)) [succeeds, fails] in_turn2)))) =
     Some (Failure ''x'') \<and>
   cancellers (trace (Work None (Some Unbounded)
      (Some (policy_manager CancelNeverFirstError pstate0)) [succeeds, fails] in_turn2)) = []"
proof -
  let ?s = "Work None (Some Unbounded) (Some (policy_manager CancelNeverFirstError pstate0))
      [succeeds, fails] in_turn2"
  have "?s = ?s \<or> ?s = WorkFor None 0 (Some Unbounded)
      (Some (policy_manager CancelNeverFirstError pstate0)) (\<lambda>c i. succeeds c) in_turn2 \<and>
      [succeeds, fails] = map (\<lambda>i c. succeeds c) [0..<nat 0]"
    by simp
  from never_first_error_run [OF this sample_never_status]
  show ?thesis by (simp add: sample_never_status fails_def ctx_or_TODO_def)
qed

section \<open>A fault in a worker\<close>

lemma prevailing_Some [simp]: "prevailing (Some f) x \<noteq> None"
  by (cases x) simp_all

lemma prevailing_Some_ex [simp]: "\<exists>y. prevailing (Some f) x = Some y"
  by (cases x) simp_all

lemma unwind_not_Leaving [simp]: "unwind out \<noteq> Leaving flt"
  by (cases out) simp_all

lemma fatal_start: "fatal (start ctx m g lz cl)"
  by (simp add: fatal_def start_def)

lemma fatal_main_step:
  assumes "fatal s"
  shows "fatal (main_step s)"
proof (cases "status s")
  case Submitting
  show ?thesis
  proof (cases "queue s")
    case Nil
    with Submitting assms show ?thesis by (fastforce simp: main_step_def fatal_def)
  next
    case (Cons w ws)
    with Submitting assms show ?thesis
      by (auto simp: main_step_def fatal_def nth_append split: if_splits; blast)
  qed
next
  case Waiting
  show ?thesis
  proof (cases "Panic (fst (Result (mgr s)))")
    case None
    with Waiting assms show ?thesis
      by (auto simp: main_step_def fatal_def finish_returns; blast)
  next
    case (Some f)
    with Waiting assms show ?thesis
      by (auto simp: main_step_def fatal_def finish_raises; blast)
  qed
qed (use assms in \<open>simp_all add: main_step_def\<close>)

lemma fatal_task_step:
  assumes f: "fatal s" and c: "consistent g s"
  shows "fatal (task_step adm i s)"
proof (cases "i < length (tasks s)")
  case False
  with f show ?thesis by (simp add: task_step_def)
next
  case True
  from c True have ag: "agrees (workers s ! i) i (tasks s ! i) (calls i (trace s))"
    by (auto simp: consistent_def split: if_splits; blast)
  have m: "ManageE i err flt n \<in> set (trace s) \<Longrightarrow> ManageE i err flt n \<in> set (calls i (trace s))"
    for err flt n by (simp add: in_calls)
  have d: "DoneE i \<in> set (trace s) \<Longrightarrow> DoneE i \<in> set (calls i (trace s))"
    by (simp add: in_calls)
  show ?thesis
  proof (cases "tasks s ! i")
    case Queued
    with True f show ?thesis
      by (auto simp: task_step_def fatal_def nth_list_update split: if_splits; blast)
  next
    case Running
    with True f show ?thesis
      by (auto simp: task_step_def fatal_def Let_def nth_list_update split: if_splits; blast)
  next
    case (Managing err flt)
    with ag obtain out where cs: "calls i (trace s) = [BodyE i out]" by auto
    with m have nm: "ManageE i err' flt' n' \<notin> set (trace s)" for err' flt' n' by fastforce
    from cs d have nd: "DoneE i \<notin> set (trace s)" by fastforce
    from Managing True f nm nd show ?thesis
      by (auto simp: task_step_def fatal_def Let_def nth_list_update split: if_splits; blast)
  next
    case (Leaving flt)
    let ?st = "case flt of None \<Rightarrow> status s | Some f \<Rightarrow> Crashed f"
    from Leaving True have ts: "task_step adm i s =
        s\<lparr>wg := wg s - 1, tasks := (tasks s)[i := Exited], status := ?st,
          trace := trace s @ [DoneE i]\<rparr>"
      by (simp add: task_step_def)
    have keep: "\<exists>f'. ?st = Crashed f'" if "\<exists>f'. status s = Crashed f'"
      using that by (cases flt) auto
    have one: "flt' \<noteq> None"
      if "j < length (tasks s)" and "(tasks s)[i := Exited] ! j = Leaving flt'"
        and "ManageE j err (Some f') n \<in> set (trace s)" for j flt' err f' n
    proof -
      from that(1,2) have "j \<noteq> i" using True by (auto simp: nth_list_update split: if_splits)
      with that(2) have "tasks s ! j = Leaving flt'" by simp
      with f that(1,3) show ?thesis unfolding fatal_def by blast
    qed
    have two: "\<exists>f'. ?st = Crashed f'"
      if "ManageE k err (Some f') n \<in> set (trace s)" and "DoneE k \<in> set (trace s) \<or> k = i"
      for k err f' n
    proof (cases "k = i")
      case True
      with f Leaving \<open>i < length (tasks s)\<close> that(1) have "flt \<noteq> None"
        unfolding fatal_def by blast
      then show ?thesis by auto
    next
      case False
      with that have "DoneE k \<in> set (trace s)" by simp
      with f that(1) have "\<exists>f'. status s = Crashed f'" unfolding fatal_def by blast
      then show ?thesis by (rule keep)
    qed
    show ?thesis
      unfolding ts fatal_def using one two by (simp; blast)
  next
    case Exited
    with True f show ?thesis by (simp add: task_step_def)
  qed
qed

lemma fatal_exec: "fatal s \<Longrightarrow> consistent g s \<Longrightarrow> fatal (exec adm sched s)"
proof (induction sched arbitrary: s)
  case Nil
  then show ?case by (simp add: exec_def)
next
  case (Cons c sched)
  from Cons.prems have "fatal (step adm c s)"
    by (cases c) (simp_all add: step_def fatal_main_step fatal_task_step split: status.splits)
  with Cons.prems have "fatal (exec adm sched (step adm c s))"
    by (simp add: Cons.IH consistent_step)
  then show ?case by (simp add: exec_def)
qed

lemma is_run_fatal:
  assumes "is_run s"
  shows "fatal s"
  using assms
proof cases
  case (Work ctx e m g sched)
  then show ?thesis
    unfolding Work_def by (simp add: fatal_exec [OF fatal_start consistent_start])
next
  case (WorkFor ctx n e m w sched)
  show ?thesis
  proof (cases "n < 0")
    case True
    with WorkFor show ?thesis by (simp add: WorkFor_def fatal_def start_def)
  next
    case False
    with WorkFor show ?thesis
      unfolding WorkFor_def by (simp add: fatal_exec [OF fatal_start consistent_start])
  qed
next
  case (WorkChan ctx e m ch sched)
  then show ?thesis
    unfolding WorkChan_def by (simp add: fatal_exec [OF fatal_start consistent_start])
qed

text \<open>
  Whatever the manager, the executer and the schedule: once the body of a worker has
  raised a fault, the entry point never gives control back, neither by a return nor by a
  re-raised fault; and when the closure of that worker is over, the process has crashed.
\<close>

lemma worker_fault_is_fatal:
  assumes "is_run s" and "BodyE i (Panics f) \<in> set (trace s)"
  shows "\<not> exited (status s) \<and> (DoneE i \<in> set (trace s) \<longrightarrow> (\<exists>f'. status s = Crashed f'))"
proof -
  from assms(1) have c: "consistent (workload s) s" and ft: "fatal s"
    by (rule is_run_consistent, rule is_run_fatal)
  from assms(2) have b: "BodyE i (Panics f) \<in> set (calls i (trace s))"
    by (simp add: in_calls)
  have cr: "\<exists>f'. status s = Crashed f'" if "DoneE i \<in> set (trace s)"
  proof -
    from that have dc: "DoneE i \<in> set (calls i (trace s))" by (simp add: in_calls)
    from c show ?thesis
    proof (cases rule: calls_cases [where i = i])
      case idle
      with b show ?thesis by simp
    next
      case (body out err flt)
      with dc show ?thesis by simp
    next
      case (managed out err flt n)
      with dc show ?thesis by simp
    next
      case (over out err flt n)
      with b have "out = Panics f" by auto
      with over have "ManageE i None (Some f) n \<in> set (calls i (trace s))" by auto
      with set_calls have "ManageE i None (Some f) n \<in> set (trace s)" by blast
      with ft that show ?thesis unfolding fatal_def by blast
    qed
  qed
  have "\<not> exited (status s)"
  proof
    assume ex: "exited (status s)"
    have "i < length (tasks s)"
    proof (rule ccontr)
      assume "\<not> i < length (tasks s)"
      with c have "calls i (trace s) = []" by (auto simp: consistent_def split: if_splits)
      with b show False by simp
    qed
    with c ex have "tasks s ! i = Exited"
      using nth_mem [of i "tasks s"] by (auto simp: consistent_def)
    moreover from c \<open>i < length (tasks s)\<close>
    have "agrees (workers s ! i) i (tasks s ! i) (calls i (trace s))"
      by (auto simp: consistent_def split: if_splits)
    ultimately have "DoneE i \<in> set (calls i (trace s))" by auto
    with set_calls have "DoneE i \<in> set (trace s)" by blast
    from cr [OF this] ex show False by auto
  qed
  with cr show ?thesis by blast
qed


subsection \<open>Claim C6\<close>

text \<open>
  C6. The claim, with \<^verbatim>\<open>TestRecoverManager\<close>, asks that a run under a \<^verbatim>\<open>Recover\<close>-decorated
  manager in which a worker raises a fault completes normally with the FaultOutcome as its
  result. The closure of \<^verbatim>\<open>work.go\<close> does not do that. At the input of the test, scaled
  down to two workers, with the workers run one after the other: the manager is handed
  the nil outcome of the faulting worker and no fault to recover, the fault leaves the
  goroutine of the worker when its closure is over, and the run ends as a crashed process
  with the value of the fault, not as a return of a \<^verbatim>\<open>PanicError\<close>.
\<close>

theorem recover_run_crashes:
  "status (WorkFor (Some (Ctx False)) 2 (Some Unbounded)
             (Some (Recover (policy_manager CancelOnFirstError pstate0))) test_worker in_turn2) =
     Crashed (Value ''worker 1 failed'') \<and>
   trace (WorkFor (Some (Ctx False)) 2 (Some Unbounded)
            (Some (Recover (policy_manager CancelOnFirstError pstate0))) test_worker in_turn2) =
     [BodyE 0 (Returns None), ManageE 0 None None 1, DoneE 0,
      BodyE 1 (Panics (Value ''worker 1 failed'')),
      ManageE 1 None (Some (Value ''worker 1 failed'')) 2, DoneE 1]"
  by (simp add: run_defs in_turn2_def test_worker_def upt_rec)

subsection \<open>Claim C5\<close>

text \<open>
  C5. The claim, with \<^verbatim>\<open>TestRepanicManager\<close>, asks that a run under a
  \<^verbatim>\<open>Repanic\<close>-decorated manager in which a worker raises the value \<open>v\<close> ends with the
  entry point re-raising \<open>v\<close> in the calling goroutine, after every worker has completed.
  The closure of \<^verbatim>\<open>work.go\<close> does not do that. At the input of the test, scaled down to
  two workers, with the workers run one after the other: the manager is handed the nil
  outcome of the faulting worker and no fault to recover, the fault leaves the goroutine
  of the worker when its closure is over, and the run ends as a crashed process; the entry
  point has not asked for the result and re-raises nothing.
\<close>

theorem repanic_run_crashes:
  "status (WorkFor (Some (Ctx False)) 2 (Some Unbounded)
             (Some (Repanic (policy_manager CancelOnFirstError pstate0))) test_worker in_turn2) =
     Crashed (Value ''worker 1 failed'') \<and>
   \<not> list_ex entry_event
       (trace (WorkFor (Some (Ctx False)) 2 (Some Unbounded)
          (Some (Repanic (policy_manager CancelOnFirstError pstate0))) test_worker in_turn2))"
  by (simp add: run_defs in_turn2_def test_worker_def upt_rec)


section \<open>Runs on a bounded executer\<close>

lemma filter_active_snoc_Queued [simp]: "filter active (ts @ [Queued]) = filter active ts"
  by simp

lemma filter_update_grow:
  "i < length ts \<Longrightarrow> \<not> P (ts ! i) \<Longrightarrow> P x \<Longrightarrow>
   length (filter P (ts[i := x])) = Suc (length (filter P ts))"
proof (induction ts arbitrary: i)
  case Nil
  then show ?case by simp
next
  case (Cons t ts)
  then show ?case by (cases i) auto
qed

lemma capped_main_step:
  "length (filter active (tasks s)) \<le> k \<Longrightarrow> length (filter active (tasks (main_step s))) \<le> k"
  by (auto simp: main_step_def finish_def Let_def case_prod_beta
           split: status.splits list.splits option.splits)

lemma capped_task_step:
  assumes "length (filter active (tasks s)) \<le> k"
    and "\<And>ts j. adm ts j \<Longrightarrow> length (filter active ts) < k"
  shows "length (filter active (tasks (task_step adm i s))) \<le> k"
proof (cases "i < length (tasks s)")
  case False
  with assms show ?thesis by (simp add: task_step_def)
next
  case True
  show ?thesis
  proof (cases "tasks s ! i")
    case Queued
    show ?thesis
    proof (cases "adm (tasks s) i")
      case False
      with Queued True assms(1) show ?thesis by (simp add: task_step_def)
    next
      case adm: True
      from assms(2) [OF adm] have "length (filter active (tasks s)) < k" .
      moreover from True Queued
      have "length (filter active ((tasks s)[i := Running])) = Suc (length (filter active (tasks s)))"
        by (intro filter_update_grow) simp_all
      ultimately show ?thesis using Queued True adm by (simp add: task_step_def)
    qed
  next
    case Running
    with True assms(1) show ?thesis
      by (simp add: task_step_def Let_def filter_update_keep)
  next
    case (Managing err flt)
    with True assms(1) show ?thesis
      by (simp add: task_step_def Let_def filter_update_keep)
  next
    case (Leaving flt)
    with True have "Suc (length (filter active ((tasks s)[i := Exited]))) =
        length (filter active (tasks s))"
      by (intro filter_update_drop) simp_all
    with Leaving True assms(1) show ?thesis by (simp add: task_step_def)
  next
    case Exited
    with True assms(1) show ?thesis by (simp add: task_step_def)
  qed
qed

lemma capped_step:
  assumes "length (filter active (tasks s)) \<le> k"
    and "\<And>ts j. adm ts j \<Longrightarrow> length (filter active ts) < k"
  shows "length (filter active (tasks (step adm c s))) \<le> k"
  using assms
  by (cases c) (simp_all add: step_def capped_main_step capped_task_step split: status.splits)

lemma capped_exec:
  assumes "length (filter active (tasks s)) \<le> k"
    and "\<And>ts j. adm ts j \<Longrightarrow> length (filter active ts) < k"
  shows "length (filter active (tasks (exec adm sched s))) \<le> k"
  using assms(1) unfolding exec_def
  by (induction sched arbitrary: s) (simp_all add: capped_step assms(2))

lemma admits_capped:
  "e = Bounded k \<or> e = Pool c k \<Longrightarrow> admits e ts j \<Longrightarrow> length (filter active ts) < k"
  by auto

lemma in_body_active: "length (filter in_body ts) \<le> length (filter active ts)"
proof (induction ts)
  case Nil
  then show ?case by simp
next
  case (Cons t ts)
  then show ?case by (cases t) simp_all
qed

lemma capped_exec_start:
  assumes "e = Bounded k \<or> e = Pool c k"
  shows "length (filter active (tasks (exec (admits e) sched (start ctx m g lz cl)))) \<le> k"
proof (rule capped_exec)
  show "length (filter active (tasks (start ctx m g lz cl))) \<le> k"
    by (simp add: start_def)
next
  fix ts :: "'a task list" and j
  assume "admits e ts j"
  with assms show "length (filter active ts) < k" by (rule admits_capped)
qed

lemma run_on_capped:
  assumes "run_on e s" and "e = Bounded k \<or> e = Pool c k"
  shows "length (filter active (tasks s)) \<le> k"
  using assms(1)
proof cases
  case (Work e' ctx m g sched)
  have "length (filter active (tasks (exec (admits e) sched
      (start (ctx_or_TODO ctx) (manager_or_default m) g False True)))) \<le> k"
    using assms(2) by (rule capped_exec_start)
  then show ?thesis by (simp add: Work Work_def)
next
  case (WorkFor e' ctx n m w sched)
  have "length (filter active (tasks (exec (admits e) sched
      (start (ctx_or_TODO ctx) (manager_or_default m)
         (map (\<lambda>i c. w c (int i)) [0..<nat n]) False True)))) \<le> k"
    using assms(2) by (rule capped_exec_start)
  moreover have "length (filter active (tasks (start (ctx_or_TODO ctx) (manager_or_default m)
      ([] :: 'a Worker list) False True))) \<le> k"
    by (simp add: start_def)
  ultimately show ?thesis by (simp add: WorkFor WorkFor_def)
next
  case (WorkChan e' ctx m ch sched)
  have "length (filter active (tasks (exec (admits e) sched
      (start (ctx_or_TODO ctx) (manager_or_default m) (items ch) True (closes ch))))) \<le> k"
    using assms(2) by (rule capped_exec_start)
  then show ?thesis by (simp add: WorkChan WorkChan_def)
qed

subsection \<open>Claim C7\<close>

text \<open>
  C7. In every state of a run of any entry point on \<open>Bounded k\<close> or on \<open>Pool c k\<close>,
  whatever the number of workers and the schedule, at most \<open>k\<close> closures are inside the
  body of their worker. And submitting never waits: while the entry point is in its loop
  with a worker left, its next step hands that worker to the executer and goes on,
  however many closures are started.
\<close>

theorem bounded_executers_cap_bodies:
  assumes "run_on e s" and "e = Bounded k \<or> e = Pool c k"
  shows "length (filter in_body (tasks s)) \<le> k \<and>
         (status s = Submitting \<and> queue s \<noteq> [] \<longrightarrow>
            queue (step (admits e) Main s) = tl (queue s) \<and>
            tasks (step (admits e) Main s) = tasks s @ [Queued])"
proof -
  from run_on_capped [OF assms] in_body_active [of "tasks s"]
  have "length (filter in_body (tasks s)) \<le> k" by linarith
  moreover have "queue (step (admits e) Main s) = tl (queue s) \<and>
      tasks (step (admits e) Main s) = tasks s @ [Queued]"
    if "status s = Submitting" and "queue s \<noteq> []"
    using that by (cases "queue s") (simp_all add: step_def main_step_def)
  ultimately show ?thesis by blast
qed


lemma sample_bounded_state:
  "tasks (Work None (Some (Bounded 1)) None [succeeds, succeeds, succeeds]
            [Main, Main, Task 0, Task 1]) = [Running, Queued] \<and>
   status (Work None (Some (Bounded 1)) None [succeeds, succeeds, succeeds]
            [Main, Main, Task 0, Task 1]) = Submitting \<and>
   queue (Work None (Some (Bounded 1)) None [succeeds, succeeds, succeeds]
            [Main, Main, Task 0, Task 1]) = [succeeds]"
  by (simp add: run_defs)

theorem bounded_executers_cap_bodies_witness:
  "tasks (Work None (Some (Bounded 1)) None [succeeds, succeeds, succeeds]
            [Main, Main, Task 0, Task 1]) = [Running, Queued] \<and>
   length (filter in_body (tasks (Work None (Some (Bounded 1)) None
            [succeeds, succeeds, succeeds] [Main, Main, Task 0, Task 1]))) \<le> 1 \<and>
   tasks (step (admits (Bounded 1)) Main (Work None (Some (Bounded 1)) None
            [succeeds, succeeds, succeeds] [Main, Main, Task 0, Task 1])) =
     [Running, Queued, Queued]"
proof -
  let ?s = "Work None (Some (Bounded 1)) None [succeeds, succeeds, succeeds]
      [Main, Main, Task 0, Task 1]"
  have "run_on (executer_or_default (Some (Bounded 1))) ?s" by (rule run_on.Work)
  then have r: "run_on (Bounded 1) ?s" by (simp add: executer_or_default_def)
  have e: "Bounded 1 = Bounded 1 \<or> Bounded 1 = Pool TODO 1" by simp
  from sample_bounded_state have t: "tasks ?s = [Running, Queued]"
    and q: "status ?s = Submitting \<and> queue ?s \<noteq> []" by simp_all
  from bounded_executers_cap_bodies [OF r e] q
  have c: "length (filter in_body (tasks ?s)) \<le> 1"
    and n: "tasks (step (admits (Bounded 1)) Main ?s) = tasks ?s @ [Queued]"
    by blast+
  from n t have "tasks (step (admits (Bounded 1)) Main ?s) = [Running, Queued, Queued]"
    by simp
  with t c show ?thesis by (intro conjI)
qed

section \<open>A schedule that lets a run finish\<close>

lemma exec_Nil [simp]: "exec adm [] s = s"
  by (simp add: exec_def)

lemma exec_Cons [simp]: "exec adm (c # sched) s = exec adm sched (step adm c s)"
  by (simp add: exec_def)

lemma exec_append [simp]: "exec adm (xs @ ys) s = exec adm ys (exec adm xs s)"
  by (simp add: exec_def)

lemma submit_all:
  assumes "status s = Submitting" and "closed s"
  shows "exec adm (replicate (Suc (length (queue s))) Main) s =
           s\<lparr>queue := [], workers := workers s @ queue s,
             tasks := tasks s @ replicate (length (queue s)) Queued,
             wg := (if lazy s then wg s + int (length (queue s)) else wg s),
             status := Waiting\<rparr>"
  using assms
proof (induction "queue s" arbitrary: s)
  case Nil
  then have "queue s = []" by simp
  with Nil.prems show ?case by (simp add: step_def main_step_def)
next
  case (Cons w ws)
  let ?s = "s\<lparr>queue := ws, workers := workers s @ [w], tasks := tasks s @ [Queued],
      wg := (if lazy s then wg s + 1 else wg s)\<rparr>"
  from Cons.hyps(2) have q: "queue s = w # ws" by simp
  with Cons.prems have st: "step adm Main s = ?s" by (simp add: step_def main_step_def)
  have "exec adm (replicate (Suc (length (queue ?s))) Main) ?s =
      ?s\<lparr>queue := [], workers := workers ?s @ queue ?s,
        tasks := tasks ?s @ replicate (length (queue ?s)) Queued,
        wg := (if lazy ?s then wg ?s + int (length (queue ?s)) else wg ?s),
        status := Waiting\<rparr>"
    using Cons.prems by (intro Cons.hyps(1)) simp_all
  with q st show ?case by (simp add: replicate_append_same)
qed


lemma four_steps: "replicate 4 c = [c, c, c, c]"
  by (simp add: numeral_eq_Suc)

lemma one_in_turn:
  assumes st: "status s = Waiting" and i: "i < length (tasks s)" and q: "tasks s ! i = Queued"
    and adm: "adm (tasks s) i"
    and m: "mgr s = decorate d (policy_manager p ps)"
    and calm: "\<forall>c. \<exists>e. (workers s ! i) c = Returns e"
  shows "\<exists>ps' c tr.
           exec adm (replicate 4 (Task i)) s =
             s\<lparr>mgr := decorate d (policy_manager p ps'), cancelled := c,
               tasks := (tasks s)[i := Exited], wg := wg s - 1, trace := tr\<rparr>"
proof -
  let ?s1 = "s\<lparr>tasks := (tasks s)[i := Running]\<rparr>"
  have s1: "step adm (Task i) s = ?s1"
    using st i q adm by (simp add: step_def task_step_def)
  let ?out = "(workers s ! i) (child s)"
  let ?s2 = "?s1\<lparr>tasks := (tasks s)[i := unwind ?out], trace := trace s @ [BodyE i ?out]\<rparr>"
  have s2: "step adm (Task i) ?s1 = ?s2"
    using st i by (simp add: step_def task_step_def child_def Let_def)
  from calm obtain err where "?out = Returns err" by blast
  then have u: "unwind ?out = Managing err None" by simp
  let ?r = "Manage (mgr s) (child s) err None"
  have r: "?r = Managed (decorate d (policy_manager p (after p ps err)))
      (snd (decide p err ps)) None (count ps + 1)"
    by (simp add: m Manage_decorate)
  let ?s3 = "?s2\<lparr>mgr := next_manager ?r, cancelled := (cancelled s \<or> cancel_called ?r),
      tasks := (tasks s)[i := Leaving None],
      trace := trace ?s2 @ ManageE i err None (seqno ?r)
        # (if cancel_called ?r then [CancelE (Some i)] else [])\<rparr>"
  have s3: "step adm (Task i) ?s2 = ?s3"
    using st i u by (simp add: step_def task_step_def Let_def child_def r [unfolded child_def])
  let ?s4 = "?s3\<lparr>wg := wg s - 1, tasks := (tasks s)[i := Exited],
      trace := trace ?s3 @ [DoneE i]\<rparr>"
  have s4: "step adm (Task i) ?s3 = ?s4"
    using st i by (simp add: step_def task_step_def)
  have "exec adm (replicate 4 (Task i)) s =
      step adm (Task i) (step adm (Task i) (step adm (Task i) (step adm (Task i) s)))"
    by (simp add: four_steps)
  also have "\<dots> = ?s4"
    by (simp only: s1 s2 s3 s4)
  also have "?s4 = s\<lparr>mgr := decorate d (policy_manager p (after p ps err)),
      cancelled := (cancelled s \<or> cancel_called ?r),
      tasks := (tasks s)[i := Exited], wg := wg s - 1, trace := trace ?s4\<rparr>"
    by (simp add: r)
  finally show ?thesis by blast
qed


lemma replicate_update_next:
  assumes "k < n"
  shows "(replicate k a @ replicate (n - k) b)[k := a] =
           replicate (Suc k) a @ replicate (n - Suc k) b"
proof -
  from assms obtain m where m: "n - k = Suc m" and m': "n - Suc k = m"
    by (metis Suc_diff_Suc)
  then show ?thesis
    by (simp add: list_update_append replicate_append_same)
qed

lemma exited_finish: "exited (status (finish s))"
  by (cases "Panic (fst (Result (mgr s)))") (simp_all add: finish_returns finish_raises)

lemma lined_up_next:
  assumes l: "lined_up d p g k s" and k: "k < length g"
    and adm: "\<And>ts i. filter active ts = [] \<Longrightarrow> Queued \<notin> set (take i ts) \<Longrightarrow> adm ts i"
    and calm: "\<forall>w \<in> set g. \<forall>c. \<exists>e. w c = Returns e"
  shows "lined_up d p g (Suc k) (exec adm (replicate 4 (Task k)) s)"
proof -
  from l obtain ps where st: "status s = Waiting" and q: "queue s = []" and w: "workers s = g"
    and t: "tasks s = replicate k Exited @ replicate (length g - k) Queued"
    and c: "wg s = int (length g - k)" and m: "mgr s = decorate d (policy_manager p ps)"
    by (auto simp: lined_up_def)
  from t k have i: "k < length (tasks s)" by simp
  from t k have tq: "tasks s ! k = Queued" by (simp add: nth_append)
  have "adm (tasks s) k"
  proof (rule adm)
    show "filter active (tasks s) = []" by (simp add: t)
    show "Queued \<notin> set (take k (tasks s))" by (simp add: t)
  qed
  moreover from calm w k have "\<forall>c. \<exists>e. (workers s ! k) c = Returns e"
    by auto
  ultimately obtain ps' c' tr where
    "exec adm (replicate 4 (Task k)) s =
       s\<lparr>mgr := decorate d (policy_manager p ps'), cancelled := c',
         tasks := (tasks s)[k := Exited], wg := wg s - 1, trace := tr\<rparr>"
    using one_in_turn [OF st i tq _ m] by blast
  moreover from k have "int (length g - k) - 1 = int (length g - Suc k)" by simp
  ultimately show ?thesis
    using st q w c k by (auto simp: lined_up_def t replicate_update_next)
qed

lemma lined_up_all:
  assumes "lined_up d p g 0 s" and "k \<le> length g"
    and adm: "\<And>ts i. filter active ts = [] \<Longrightarrow> Queued \<notin> set (take i ts) \<Longrightarrow> adm ts i"
    and calm: "\<forall>w \<in> set g. \<forall>c. \<exists>e. w c = Returns e"
  shows "lined_up d p g k (exec adm (concat (map (\<lambda>i. replicate 4 (Task i)) [0..<k])) s)"
  using assms(2)
proof (induction k)
  case 0
  with assms(1) show ?case by simp
next
  case (Suc k)
  then have "lined_up d p g k (exec adm (concat (map (\<lambda>i. replicate 4 (Task i)) [0..<k])) s)"
    and "k < length g" by simp_all
  from lined_up_next [OF this adm calm] show ?case by simp
qed

text \<open>
  Under the schedule \<open>in_turn\<close> a run over any number of workers whose bodies raise no
  fault gets to its exit: on an executer that starts a closure when none is started and
  all submitted before it are over, under any built-in manager.
\<close>

lemma in_turn_exits:
  assumes adm: "\<And>ts i. filter active ts = [] \<Longrightarrow> Queued \<notin> set (take i ts) \<Longrightarrow> adm ts i"
    and calm: "\<forall>w \<in> set g. \<forall>c. \<exists>e. w c = Returns e"
  shows "exited (status (exec adm (in_turn (length g))
           (start ctx (decorate d (policy_manager p pstate0)) g lz True)))"
proof -
  let ?s0 = "start ctx (decorate d (policy_manager p pstate0)) g lz True"
  let ?s1 = "exec adm (replicate (Suc (length g)) Main) ?s0"
  let ?s2 = "exec adm (concat (map (\<lambda>i. replicate 4 (Task i)) [0..<length g])) ?s1"
  have "status ?s0 = Submitting" and "closed ?s0" and "queue ?s0 = g"
    by (simp_all add: start_def)
  from submit_all [OF this(1,2), of adm] this(3)
  have "lined_up d p g 0 ?s1"
    by (auto simp: lined_up_def start_def)
  from lined_up_all [OF this order_refl adm calm] have "lined_up d p g (length g) ?s2" .
  then have "status ?s2 = Waiting" and "wg ?s2 = 0" by (simp_all add: lined_up_def)
  then have "step adm Main ?s2 = finish ?s2" by (simp add: step_def main_step_def)
  then have "exited (status (step adm Main ?s2))" by (simp add: exited_finish)
  then show ?thesis by (simp add: in_turn_def)
qed

lemma admits_when_idle:
  assumes "e = Unbounded \<or> e = Bounded (Suc k) \<or> e = Pool (Ctx False) (Suc k)"
    and "filter active ts = []" and "Queued \<notin> set (take i ts)"
  shows "admits e ts i"
  using assms by auto

lemma Work_in_turn_exits:
  assumes "e = None \<or> e = Some Unbounded \<or> e = Some (Bounded (Suc k)) \<or>
           e = Some (Pool (Ctx False) (Suc k))"
    and "\<forall>w \<in> set g. \<forall>c. \<exists>r. w c = Returns r"
  shows "exited (status (Work ctx e (Some (decorate d (policy_manager p pstate0))) g
           (in_turn (length g))))"
proof -
  from assms(1) have "executer_or_default e = Unbounded \<or>
      executer_or_default e = Bounded (Suc k) \<or>
      executer_or_default e = Pool (Ctx False) (Suc k)"
    by (auto simp: executer_or_default_def DefaultExecuter_def)
  from in_turn_exits [OF admits_when_idle [OF this] assms(2)] show ?thesis
    by (simp add: Work_def manager_or_default_def)
qed


lemma WorkFor_in_turn_exits:
  assumes "e = None \<or> e = Some Unbounded \<or> e = Some (Bounded (Suc k)) \<or>
           e = Some (Pool (Ctx False) (Suc k))"
    and "\<forall>i c. \<exists>r. w c i = Returns r"
  shows "exited (status (WorkFor ctx n e (Some (decorate d (policy_manager p pstate0))) w
           (in_turn (nat n))))"
proof (cases "n < 0")
  case True
  then show ?thesis by (simp add: WorkFor_def)
next
  case False
  let ?g = "map (\<lambda>i c. w c (int i)) [0..<nat n]"
  from assms(1) have "executer_or_default e = Unbounded \<or>
      executer_or_default e = Bounded (Suc k) \<or>
      executer_or_default e = Pool (Ctx False) (Suc k)"
    by (auto simp: executer_or_default_def DefaultExecuter_def)
  moreover from assms(2) have "\<forall>w \<in> set ?g. \<forall>c. \<exists>r. w c = Returns r"
    by auto
  ultimately have "exited (status (exec (admits (executer_or_default e)) (in_turn (length ?g))
      (start (ctx_or_TODO ctx) (decorate d (policy_manager p pstate0)) ?g False True)))"
    by (intro in_turn_exits admits_when_idle)
  with False show ?thesis
    by (simp add: WorkFor_def manager_or_default_def)
qed

lemma WorkChan_in_turn_exits:
  assumes "e = None \<or> e = Some Unbounded \<or> e = Some (Bounded (Suc k)) \<or>
           e = Some (Pool (Ctx False) (Suc k))"
    and "\<forall>w \<in> set g. \<forall>c. \<exists>r. w c = Returns r"
  shows "exited (status (WorkChan ctx e (Some (decorate d (policy_manager p pstate0)))
           (Chan g True) (in_turn (length g))))"
proof -
  from assms(1) have "executer_or_default e = Unbounded \<or>
      executer_or_default e = Bounded (Suc k) \<or>
      executer_or_default e = Pool (Ctx False) (Suc k)"
    by (auto simp: executer_or_default_def DefaultExecuter_def)
  from in_turn_exits [OF admits_when_idle [OF this] assms(2)] show ?thesis
    by (simp add: WorkChan_def manager_or_default_def)
qed

lemma in_turn_2: "in_turn 2 = in_turn2"
  by (simp add: in_turn_def in_turn2_def numeral_eq_Suc)

section \<open>Runs under the accumulating manager\<close>

lemma Manage_Accumulate:
  "Manage (AccumulateManager (decorate d (policy_manager p (tally p outs))) errs) c err None =
     Managed
       (AccumulateManager (decorate d (policy_manager p (tally p (outs @ [err]))))
          ((errs @ replicate (Suc (length outs) - length errs) None)[length outs := err]))
       (snd (decide p (err) (tally p outs)))
       None
       (int (length outs) + 1)"
  by (simp add: Manage_decorate Let_def nat_add_distrib)

lemma Result_Accumulate:
  "Result (AccumulateManager (decorate d (policy_manager p ps)) errs) =
     (delivered d (chosen ps), AccumulateManager (decorate d (policy_manager p ps)) errs)"
  by (simp add: Result_decorate)

lemma accumulated_start:
  "accumulated d p (start ctx (AccumulateManager (decorate d (policy_manager p pstate0)) []) g lz cl)"
  by (simp add: accumulated_def start_def tally_def)

lemma accumulated_main_step:
  assumes "accumulated d p s"
  shows "accumulated d p (main_step s)"
proof (cases "status s")
  case Submitting
  with assms show ?thesis
    by (auto simp: main_step_def accumulated_def split: list.splits)
next
  case Waiting
  from assms have r: "Result (mgr s) =
      (delivered d (aggregate p (map fst (outcomes (trace s)))), mgr s)"
    by (simp add: accumulated_def Result_decorate chosen_tally)
  show ?thesis
  proof (cases "Panic (delivered d (aggregate p (map fst (outcomes (trace s)))))")
    case None
    with Waiting assms r show ?thesis
      by (simp add: main_step_def finish_returns accumulated_def)
  next
    case (Some f)
    with Waiting assms r show ?thesis
      by (simp add: main_step_def finish_raises accumulated_def)
  qed
qed (use assms in \<open>simp_all add: main_step_def\<close>)

lemma accumulated_task_step:
  assumes "accumulated d p s"
  shows "accumulated d p (task_step adm i s)"
proof (cases "i < length (tasks s)")
  case False
  with assms show ?thesis by (simp add: task_step_def)
next
  case True
  show ?thesis
  proof (cases "tasks s ! i")
    case (Managing err flt)
    let ?outs = "map fst (outcomes (trace s))"
    let ?errs = "map fst (outcomes (trace s))"
    from assms have "mgr s = AccumulateManager (decorate d (policy_manager p (tally p ?outs))) ?errs"
      by (simp add: accumulated_def)
    then have r: "Manage (mgr s) (child s) err None =
        Managed
          (AccumulateManager
             (decorate d (policy_manager p (tally p (?outs @ [err]))))
             (?errs @ [err]))
          (snd (decide p (err) (tally p ?outs)))
          None
          (int (length ?outs) + 1)"
      by (simp only: Manage_Accumulate) (simp add: list_update_append)
    from Managing True have ts: "task_step adm i s =
        s\<lparr>mgr := AccumulateManager
              (decorate d (policy_manager p (tally p (?outs @ [err]))))
              (?errs @ [err]),
          cancelled := (cancelled s \<or> snd (decide p (err) (tally p ?outs))),
          tasks := (tasks s)[i := Leaving flt],
          trace := trace s @ ManageE i err flt (int (length ?outs) + 1)
            # (if snd (decide p (err) (tally p ?outs))
               then [CancelE (Some i)] else [])\<rparr>"
      by (simp add: task_step_def r Let_def)
    from assms show ?thesis
      unfolding ts by (auto simp: accumulated_def)
  qed (use True assms in \<open>auto simp: task_step_def accumulated_def Let_def split: option.splits\<close>)
qed

lemma accumulated_exec: "accumulated d p s \<Longrightarrow> accumulated d p (exec adm sched s)"
proof (induction sched arbitrary: s)
  case Nil
  then show ?case by simp
next
  case (Cons c sched)
  from Cons.prems have "accumulated d p (step adm c s)"
    by (cases c)
       (simp_all add: step_def accumulated_main_step accumulated_task_step split: status.splits)
  then show ?case by (simp add: Cons.IH)
qed

text \<open>
  After any run of an entry point under the accumulating manager over a built-in manager,
  the field \<^verbatim>\<open>Errors\<close> lists the outcomes in the order of the sequence numbers: the
  numbers 1, 2, 3, ... index it without a gap.
\<close>

lemma accumulate_records_completion_order:
  assumes "run_with (AccumulateManager (decorate d (policy_manager p pstate0)) []) s"
  shows "\<exists>m. mgr s = AccumulateManager m (map fst (outcomes (trace s))) \<and>
           seqnos (trace s) = map int [1..<Suc (length (outcomes (trace s)))]"
proof -
  let ?m = "AccumulateManager (decorate d (policy_manager p pstate0)) []"
  have ex: "accumulated d p (exec adm sched (start ctx ?m g lz cl))"
    for adm sched ctx lz cl and g :: "'a Worker list"
    by (rule accumulated_exec [OF accumulated_start])
  have "accumulated d p s"
    using assms
  proof cases
    case (Work m ctx e g sched)
    from ex show ?thesis
      unfolding Work(2) Work_def Work(1) [symmetric] .
  next
    case (WorkFor m ctx n e w sched)
    show ?thesis
    proof (cases "n < 0")
      case True
      then show ?thesis
        unfolding WorkFor(2) WorkFor_def WorkFor(1) [symmetric]
        by (simp add: accumulated_def start_def tally_def)
    next
      case False
      with ex show ?thesis
        unfolding WorkFor(2) WorkFor_def WorkFor(1) [symmetric] by simp
    qed
  next
    case (WorkChan m ctx e ch sched)
    from ex show ?thesis
      unfolding WorkChan(2) WorkChan_def WorkChan(1) [symmetric] .
  qed
  then show ?thesis unfolding accumulated_def by blast
qed

end
